theory Spec2Isabelle
  imports Main "HOL-Library.Word"
begin

section \<open>Data model\<close>

text \<open>
  The controller of \<^verbatim>\<open>resizablebuffer.c\<close> works on unsigned 32-bit counters and on bytes.
  Both are machine words here, so that every sum, difference and product wraps as in C.
\<close>

type_synonym rbuf_u8 = "8 word"
type_synonym rbuf_u32 = "32 word"

text \<open>The result codes of \<^verbatim>\<open>resizablebuffer.h\<close> (\<^verbatim>\<open>enum _rbuf_res\<close>).\<close>

datatype rbuf_res =
    RBUF_OK
  | RBUF_ERR
  | RBUF_ERR_NO_MEM
  | RBUF_ERR_BAD_OFFS
  | RBUF_ERR_BAD_SIZE

subsection \<open>The block store\<close>

text \<open>
  Modelled from the spec: the block store (\<^verbatim>\<open>bufferqueue.h\<close>, functions
  \<^verbatim>\<open>bque_enqueue\<close>, \<^verbatim>\<open>bque_forfeit\<close>, \<^verbatim>\<open>bque_item\<close>) is not part of the sources. Section 6
  of the specification gives its contract: append one block of exactly the given size at
  the tail (Ok, OutOfMemory or Generic), release the tail block (Generic when the store is
  empty), and indexed access to a block (Generic unless the index is below the number of
  blocks). The controller creates the store without store-level limits.

  The store is the ordered list of its blocks, each block the list of its bytes. Whether
  an append is granted depends on the allocator, which the controller cannot see: the
  field \<open>enqueue_outcomes\<close> lists the outcomes of the coming append calls, one entry
  consumed per call, and an exhausted list grants every append. A block appended without
  initial contents is filled with zero bytes; no theorem below depends on that choice.
\<close>

datatype bque_res = BQUE_OK | BQUE_ERR | BQUE_ERR_NO_MEM

record bque_ctx =
  blocks :: "rbuf_u8 list list"
  enqueue_outcomes :: "bque_res list"

text \<open>Modelled from the spec: \<^verbatim>\<open>append_block(store, None, size)\<close>.\<close>

definition bque_enqueue :: "bque_ctx \<Rightarrow> rbuf_u32 \<Rightarrow> bque_res \<times> bque_ctx" where
  "bque_enqueue q sz =
     (case enqueue_outcomes q of
        [] \<Rightarrow> (BQUE_OK, q\<lparr>blocks := blocks q @ [replicate (unat sz) 0]\<rparr>)
      | BQUE_OK # rest \<Rightarrow>
          (BQUE_OK, q\<lparr>blocks := blocks q @ [replicate (unat sz) 0], enqueue_outcomes := rest\<rparr>)
      | BQUE_ERR # rest \<Rightarrow> (BQUE_ERR, q\<lparr>enqueue_outcomes := rest\<rparr>)
      | BQUE_ERR_NO_MEM # rest \<Rightarrow> (BQUE_ERR_NO_MEM, q\<lparr>enqueue_outcomes := rest\<rparr>))"

text \<open>Modelled from the spec: \<^verbatim>\<open>release_tail_block(store)\<close>.\<close>

definition bque_forfeit :: "bque_ctx \<Rightarrow> bque_res \<times> bque_ctx" where
  "bque_forfeit q =
     (if blocks q = [] then (BQUE_ERR, q)
      else (BQUE_OK, q\<lparr>blocks := butlast (blocks q)\<rparr>))"

text \<open>
  Modelled from the spec: \<^verbatim>\<open>get_block(store, index)\<close>. The handle it yields on success is
  the block at that index; the copy routines below address it by the index. The index is
  taken as the unsigned value the controller computes; the cast to \<^verbatim>\<open>bque_s32\<close> in the
  loops changes nothing for an index below \<open>2 ^ 31\<close>.
\<close>

definition bque_item :: "bque_ctx \<Rightarrow> rbuf_u32 \<Rightarrow> bque_res" where
  "bque_item q idx = (if unat idx < length (blocks q) then BQUE_OK else BQUE_ERR)"

subsection \<open>The controller\<close>

text \<open>\<^verbatim>\<open>struct _rbuf_ctx\<close> with its two inner structs.\<close>

record rbuf_ctx_conf =
  block_size :: rbuf_u32
  size_max :: rbuf_u32

record rbuf_ctx_cache =
  block_num :: rbuf_u32
  buff_cap :: rbuf_u32
  buff_size :: rbuf_u32
  last_block_buff_size :: rbuf_u32

record rbuf_ctx =
  bque :: bque_ctx
  conf :: rbuf_ctx_conf
  cache :: rbuf_ctx_cache

text \<open>\<^verbatim>\<open>rbuf_stat\<close>, the snapshot \<^verbatim>\<open>rbuf_status\<close> fills in.\<close>

record rbuf_stat =
  stat_block_num :: rbuf_u32
  stat_buff_size :: rbuf_u32

definition rbuf_status :: "rbuf_ctx \<Rightarrow> rbuf_res \<times> rbuf_stat" where
  "rbuf_status ctx =
     (RBUF_OK, \<lparr>stat_block_num = block_num (cache ctx), stat_buff_size = buff_size (cache ctx)\<rparr>)"

section \<open>Resize\<close>

text \<open>
  The growth loop of \<^verbatim>\<open>rbuf_resize\<close> (lines 156 to 165): one append per round, left at the
  first append that is not granted.
\<close>

function resize_enqueue ::
  "rbuf_u32 \<Rightarrow> rbuf_u32 \<Rightarrow> rbuf_u32 \<Rightarrow> bque_ctx \<Rightarrow> bque_res \<times> bque_ctx" where
  "resize_enqueue i block_num_diff bs q =
     (if i < block_num_diff then
        (case bque_enqueue q bs of
           (BQUE_OK, q') \<Rightarrow> resize_enqueue (i + 1) block_num_diff bs q'
         | (e, q') \<Rightarrow> (e, q'))
      else (BQUE_OK, q))"
  by pat_completeness auto
termination
proof (relation "measure (\<lambda>(i, d, bs, q). unat d - unat i)")
  show "wf (measure (\<lambda>(i :: rbuf_u32, d :: rbuf_u32, bs :: rbuf_u32, q :: bque_ctx). unat d - unat i))"
    by simp
next
  fix i block_num_diff bs :: rbuf_u32 and q :: bque_ctx and x and q' :: bque_ctx
  assume lt: "i < block_num_diff"
  then have less: "unat i < unat block_num_diff"
    by (simp add: word_less_nat_alt)
  have "unat block_num_diff < 2 ^ LENGTH(32)"
    by (rule unsigned_less)
  with less have "unat i + 1 < 2 ^ LENGTH(32)"
    by linarith
  then have "unat (i + 1) = Suc (unat i)"
    by (simp add: unat_word_ariths)
  with less show "((i + 1, block_num_diff, bs, q'), i, block_num_diff, bs, q)
      \<in> measure (\<lambda>(i, d, bs, q). unat d - unat i)"
    by simp
qed

declare resize_enqueue.simps [simp del]

text \<open>The shrink loop of \<^verbatim>\<open>rbuf_resize\<close> (lines 170 to 175).\<close>

function resize_forfeit :: "rbuf_u32 \<Rightarrow> rbuf_u32 \<Rightarrow> bque_ctx \<Rightarrow> bque_res \<times> bque_ctx" where
  "resize_forfeit i block_num_diff q =
     (if i < block_num_diff then
        (case bque_forfeit q of
           (BQUE_OK, q') \<Rightarrow> resize_forfeit (i + 1) block_num_diff q'
         | (e, q') \<Rightarrow> (e, q'))
      else (BQUE_OK, q))"
  by pat_completeness auto
termination
proof (relation "measure (\<lambda>(i, d, q). unat d - unat i)")
  show "wf (measure (\<lambda>(i :: rbuf_u32, d :: rbuf_u32, q :: bque_ctx). unat d - unat i))"
    by simp
next
  fix i block_num_diff :: rbuf_u32 and q :: bque_ctx and x and q' :: bque_ctx
  assume lt: "i < block_num_diff"
  then have less: "unat i < unat block_num_diff"
    by (simp add: word_less_nat_alt)
  have "unat block_num_diff < 2 ^ LENGTH(32)"
    by (rule unsigned_less)
  with less have "unat i + 1 < 2 ^ LENGTH(32)"
    by linarith
  then have "unat (i + 1) = Suc (unat i)"
    by (simp add: unat_word_ariths)
  with less show "((i + 1, block_num_diff, q'), i, block_num_diff, q)
      \<in> measure (\<lambda>(i, d, q). unat d - unat i)"
    by simp
qed

declare resize_forfeit.simps [simp del]

text \<open>
  Lines 181 to 190 of \<^verbatim>\<open>rbuf_resize\<close>: the logical size and the fill of the last block.
\<close>

definition resize_sizes :: "rbuf_u32 \<Rightarrow> rbuf_u32 \<Rightarrow> rbuf_u32 \<Rightarrow> rbuf_ctx \<Rightarrow> rbuf_ctx" where
  "resize_sizes sz new_block_num_quotient new_block_num_remainder ctx =
     ctx\<lparr>cache := (cache ctx)
       \<lparr>buff_size := sz,
        last_block_buff_size :=
          (if new_block_num_quotient \<noteq> 0 \<and> new_block_num_remainder = 0
           then block_size (conf ctx) else new_block_num_remainder)\<rparr>\<rparr>"

text \<open>
  \<^verbatim>\<open>rbuf_resize\<close>. The result \<open>None\<close> stands for undefined behaviour of the C program:
  here the division by a block size of zero, which the code does not guard.
\<close>

definition rbuf_resize :: "rbuf_ctx \<Rightarrow> rbuf_u32 \<Rightarrow> (rbuf_res \<times> rbuf_ctx) option" where
  "rbuf_resize ctx sz =
     (if sz > size_max (conf ctx) then Some (RBUF_ERR_BAD_SIZE, ctx)
      else if block_size (conf ctx) = 0 then None
      else
        let new_block_num_quotient = sz div block_size (conf ctx);
            new_block_num_remainder = sz mod block_size (conf ctx);
            new_block_num =
              new_block_num_quotient + (if new_block_num_remainder \<noteq> 0 then 1 else 0)
        in
          if new_block_num > block_num (cache ctx) then
            (case resize_enqueue 0 (new_block_num - block_num (cache ctx))
                    (block_size (conf ctx)) (bque ctx) of
               (BQUE_OK, q) \<Rightarrow>
                 Some (RBUF_OK,
                   resize_sizes sz new_block_num_quotient new_block_num_remainder
                     (ctx\<lparr>bque := q,
                          cache := (cache ctx)
                            \<lparr>block_num := new_block_num,
                             buff_cap := block_size (conf ctx) * new_block_num\<rparr>\<rparr>))
             | (BQUE_ERR_NO_MEM, q) \<Rightarrow> Some (RBUF_ERR_NO_MEM, ctx\<lparr>bque := q\<rparr>)
             | (BQUE_ERR, q) \<Rightarrow> Some (RBUF_ERR, ctx\<lparr>bque := q\<rparr>))
          else if new_block_num < block_num (cache ctx) then
            (case resize_forfeit 0 (block_num (cache ctx) - new_block_num) (bque ctx) of
               (BQUE_OK, q) \<Rightarrow>
                 Some (RBUF_OK,
                   resize_sizes sz new_block_num_quotient new_block_num_remainder
                     (ctx\<lparr>bque := q,
                          cache := (cache ctx)
                            \<lparr>block_num := new_block_num,
                             buff_cap := block_size (conf ctx) * new_block_num\<rparr>\<rparr>))
             | (_, q) \<Rightarrow> Some (RBUF_ERR, ctx\<lparr>bque := q\<rparr>))
          else
            Some (RBUF_OK, resize_sizes sz new_block_num_quotient new_block_num_remainder ctx))"

section \<open>Copying\<close>

text \<open>
  \<^verbatim>\<open>memcpy(dst + d, src + s, n)\<close> on two byte objects. The call is defined in C only when both
  ranges lie inside their objects; otherwise the result is \<open>None\<close> (undefined behaviour).
\<close>

definition memcpy ::
  "rbuf_u8 list \<Rightarrow> nat \<Rightarrow> rbuf_u8 list \<Rightarrow> nat \<Rightarrow> nat \<Rightarrow> rbuf_u8 list option" where
  "memcpy dst d src s n =
     (if d + n \<le> length dst \<and> s + n \<le> length src
      then Some (take d dst @ take n (drop s src) @ drop (d + n) dst)
      else None)"

text \<open>
  One \<^verbatim>\<open>memcpy\<close> between a block and the caller's buffer, as the copy routines issue it:
  the block, the offset inside the block, the offset inside the caller's buffer and the
  number of bytes. The copy routines return the calls they issued, in order.
\<close>

record sub_copy =
  sc_block_idx :: rbuf_u32
  sc_block_offs :: rbuf_u32
  sc_buff_offs :: rbuf_u32
  sc_size :: rbuf_u32

text \<open>
  \<^verbatim>\<open>memcpy(mod_bque_buff.ptr + block_offs, (rbuf_u8 *)buff + buff_offs, n)\<close> into the block
  that \<^verbatim>\<open>bque_item\<close> returned for \<open>idx\<close>.
\<close>

definition block_write ::
  "bque_ctx \<Rightarrow> rbuf_u32 \<Rightarrow> rbuf_u32 \<Rightarrow> rbuf_u8 list \<Rightarrow> rbuf_u32 \<Rightarrow> rbuf_u32 \<Rightarrow> bque_ctx option" where
  "block_write q idx block_offs buff buff_offs n =
     (case memcpy (blocks q ! unat idx) (unat block_offs) buff (unat buff_offs) (unat n) of
        None \<Rightarrow> None
      | Some b \<Rightarrow> Some (q\<lparr>blocks := (blocks q)[unat idx := b]\<rparr>))"

text \<open>
  \<^verbatim>\<open>memcpy((rbuf_u8 *)buff + buff_offs, mod_bque_buff.ptr + block_offs, n)\<close> out of the
  block that \<^verbatim>\<open>bque_item\<close> returned for \<open>idx\<close>.
\<close>

definition block_read ::
  "bque_ctx \<Rightarrow> rbuf_u32 \<Rightarrow> rbuf_u32 \<Rightarrow> rbuf_u8 list \<Rightarrow> rbuf_u32 \<Rightarrow> rbuf_u32 \<Rightarrow> rbuf_u8 list option" where
  "block_read q idx block_offs buff buff_offs n =
     memcpy buff (unat buff_offs) (blocks q ! unat idx) (unat block_offs) (unat n)"

subsection \<open>Copy-in\<close>

text \<open>The loop of \<^verbatim>\<open>rbuf_copy_from\<close> over the blocks after the first (lines 254 to 270).\<close>

function copy_from_loop ::
  "rbuf_u32 \<Rightarrow> rbuf_u32 \<Rightarrow> rbuf_u32 \<Rightarrow> rbuf_u8 list \<Rightarrow> rbuf_u32 \<Rightarrow> rbuf_u32 \<Rightarrow> bque_ctx \<Rightarrow>
   sub_copy list \<Rightarrow> (rbuf_res \<times> bque_ctx \<times> sub_copy list) option" where
  "copy_from_loop i bound bs buff buff_offs rest_size q calls =
     (if i < bound then
        (case bque_item q i of
           BQUE_OK \<Rightarrow>
             (let curt_size = (if rest_size > bs then bs else rest_size) in
                case block_write q i 0 buff buff_offs curt_size of
                  None \<Rightarrow> None
                | Some q' \<Rightarrow>
                    copy_from_loop (i + 1) bound bs buff
                      (buff_offs + curt_size) (rest_size - curt_size) q'
                      (calls @ [\<lparr>sc_block_idx = i, sc_block_offs = 0,
                                 sc_buff_offs = buff_offs, sc_size = curt_size\<rparr>]))
         | _ \<Rightarrow> Some (RBUF_ERR, q, calls))
      else Some (RBUF_OK, q, calls))"
  by pat_completeness auto
termination
proof (relation "measure (\<lambda>(i, bound, bs, buff, buff_offs, rest_size, q, calls). unat bound - unat i)")
  show "wf (measure (\<lambda>(i :: rbuf_u32, bound :: rbuf_u32, bs :: rbuf_u32, buff :: rbuf_u8 list,
      buff_offs :: rbuf_u32, rest_size :: rbuf_u32, q :: bque_ctx, calls :: sub_copy list).
        unat bound - unat i))"
    by simp
next
  fix i bound bs :: rbuf_u32 and buff :: "rbuf_u8 list" and buff_offs rest_size :: rbuf_u32
    and q :: bque_ctx and calls :: "sub_copy list" and x :: rbuf_u32 and q' :: bque_ctx
  assume lt: "i < bound"
  then have less: "unat i < unat bound"
    by (simp add: word_less_nat_alt)
  have "unat bound < 2 ^ LENGTH(32)"
    by (rule unsigned_less)
  with less have "unat i + 1 < 2 ^ LENGTH(32)"
    by linarith
  then have "unat (i + 1) = Suc (unat i)"
    by (simp add: unat_word_ariths)
  with less show "((i + 1, bound, bs, buff, buff_offs + x, rest_size - x, q',
        calls @ [\<lparr>sc_block_idx = i, sc_block_offs = 0, sc_buff_offs = buff_offs, sc_size = x\<rparr>]),
       i, bound, bs, buff, buff_offs, rest_size, q, calls)
      \<in> measure (\<lambda>(i, bound, bs, buff, buff_offs, rest_size, q, calls). unat bound - unat i)"
    by simp
qed

declare copy_from_loop.simps [simp del]

text \<open>
  Lines 227 to 273 of \<^verbatim>\<open>rbuf_copy_from\<close>: the walk over the blocks, after the implicit
  resize. The division by a block size of zero is undefined.
\<close>

definition copy_from_blocks ::
  "rbuf_ctx \<Rightarrow> rbuf_u8 list \<Rightarrow> rbuf_u32 \<Rightarrow> rbuf_u32 \<Rightarrow>
   (rbuf_res \<times> rbuf_ctx \<times> sub_copy list) option" where
  "copy_from_blocks ctx buff offs sz =
     (if block_size (conf ctx) = 0 then None
      else
        let new_size = offs + sz;
            starting_block_idx = offs div block_size (conf ctx);
            ending_block_idx = new_size div block_size (conf ctx)
        in
          if starting_block_idx = ending_block_idx then
            (case bque_item (bque ctx) starting_block_idx of
               BQUE_OK \<Rightarrow>
                 (let block_offs = offs mod block_size (conf ctx) in
                    case block_write (bque ctx) starting_block_idx block_offs buff 0 sz of
                      None \<Rightarrow> None
                    | Some q \<Rightarrow>
                        Some (RBUF_OK, ctx\<lparr>bque := q\<rparr>,
                          [\<lparr>sc_block_idx = starting_block_idx, sc_block_offs = block_offs,
                            sc_buff_offs = 0, sc_size = sz\<rparr>]))
             | _ \<Rightarrow> Some (RBUF_ERR, ctx, []))
          else
            (case bque_item (bque ctx) starting_block_idx of
               BQUE_OK \<Rightarrow>
                 (let block_offs = offs mod block_size (conf ctx);
                      curt_size = block_size (conf ctx) - block_offs
                  in
                    case block_write (bque ctx) starting_block_idx block_offs buff 0 curt_size of
                      None \<Rightarrow> None
                    | Some q \<Rightarrow>
                        (case copy_from_loop (starting_block_idx + 1) (ending_block_idx + 1)
                                (block_size (conf ctx)) buff curt_size (sz - curt_size) q
                                [\<lparr>sc_block_idx = starting_block_idx, sc_block_offs = block_offs,
                                  sc_buff_offs = 0, sc_size = curt_size\<rparr>] of
                           None \<Rightarrow> None
                         | Some (res, q', calls) \<Rightarrow> Some (res, ctx\<lparr>bque := q'\<rparr>, calls)))
             | _ \<Rightarrow> Some (RBUF_ERR, ctx, [])))"

text \<open>\<^verbatim>\<open>rbuf_copy_from\<close>: the implicit resize (lines 215 to 225), then the walk.\<close>

definition rbuf_copy_from ::
  "rbuf_ctx \<Rightarrow> rbuf_u8 list \<Rightarrow> rbuf_u32 \<Rightarrow> rbuf_u32 \<Rightarrow>
   (rbuf_res \<times> rbuf_ctx \<times> sub_copy list) option" where
  "rbuf_copy_from ctx buff offs sz =
     (let new_size = offs + sz in
        if new_size > buff_cap (cache ctx) then
          (case rbuf_resize ctx new_size of
             None \<Rightarrow> None
           | Some (res, ctx') \<Rightarrow>
               if res \<noteq> RBUF_OK then Some (res, ctx', [])
               else copy_from_blocks ctx' buff offs sz)
        else copy_from_blocks ctx buff offs sz)"

text \<open>\<^verbatim>\<open>rbuf_append\<close>: a copy-in at the current logical size.\<close>

definition rbuf_append ::
  "rbuf_ctx \<Rightarrow> rbuf_u8 list \<Rightarrow> rbuf_u32 \<Rightarrow> (rbuf_res \<times> rbuf_ctx \<times> sub_copy list) option" where
  "rbuf_append ctx buff sz = rbuf_copy_from ctx buff (buff_size (cache ctx)) sz"

subsection \<open>Copy-out\<close>

text \<open>The loop of \<^verbatim>\<open>rbuf_copy_to\<close> over the blocks after the first (lines 348 to 364).\<close>

function copy_to_loop ::
  "rbuf_u32 \<Rightarrow> rbuf_u32 \<Rightarrow> rbuf_u32 \<Rightarrow> bque_ctx \<Rightarrow> rbuf_u32 \<Rightarrow> rbuf_u32 \<Rightarrow> rbuf_u8 list \<Rightarrow>
   sub_copy list \<Rightarrow> (rbuf_res \<times> rbuf_u8 list \<times> sub_copy list) option" where
  "copy_to_loop i bound bs q buff_offs rest_size buff calls =
     (if i < bound then
        (case bque_item q i of
           BQUE_OK \<Rightarrow>
             (let curt_size = (if rest_size > bs then bs else rest_size) in
                case block_read q i 0 buff buff_offs curt_size of
                  None \<Rightarrow> None
                | Some buff' \<Rightarrow>
                    copy_to_loop (i + 1) bound bs q
                      (buff_offs + curt_size) (rest_size - curt_size) buff'
                      (calls @ [\<lparr>sc_block_idx = i, sc_block_offs = 0,
                                 sc_buff_offs = buff_offs, sc_size = curt_size\<rparr>]))
         | _ \<Rightarrow> Some (RBUF_ERR, buff, calls))
      else Some (RBUF_OK, buff, calls))"
  by pat_completeness auto
termination
proof (relation "measure (\<lambda>(i, bound, bs, q, buff_offs, rest_size, buff, calls). unat bound - unat i)")
  show "wf (measure (\<lambda>(i :: rbuf_u32, bound :: rbuf_u32, bs :: rbuf_u32, q :: bque_ctx,
      buff_offs :: rbuf_u32, rest_size :: rbuf_u32, buff :: rbuf_u8 list, calls :: sub_copy list).
        unat bound - unat i))"
    by simp
next
  fix i bound bs :: rbuf_u32 and q :: bque_ctx and buff_offs rest_size :: rbuf_u32
    and buff :: "rbuf_u8 list" and calls :: "sub_copy list" and x :: rbuf_u32
    and buff' :: "rbuf_u8 list"
  assume lt: "i < bound"
  then have less: "unat i < unat bound"
    by (simp add: word_less_nat_alt)
  have "unat bound < 2 ^ LENGTH(32)"
    by (rule unsigned_less)
  with less have "unat i + 1 < 2 ^ LENGTH(32)"
    by linarith
  then have "unat (i + 1) = Suc (unat i)"
    by (simp add: unat_word_ariths)
  with less show "((i + 1, bound, bs, q, buff_offs + x, rest_size - x, buff',
        calls @ [\<lparr>sc_block_idx = i, sc_block_offs = 0, sc_buff_offs = buff_offs, sc_size = x\<rparr>]),
       i, bound, bs, q, buff_offs, rest_size, buff, calls)
      \<in> measure (\<lambda>(i, bound, bs, q, buff_offs, rest_size, buff, calls). unat bound - unat i)"
    by simp
qed

declare copy_to_loop.simps [simp del]

text \<open>
  \<^verbatim>\<open>rbuf_copy_to\<close>. It returns the result code, the context (which no line of it
  assigns to), the caller's buffer and the \<^verbatim>\<open>memcpy\<close> calls it issued.
\<close>

definition rbuf_copy_to ::
  "rbuf_ctx \<Rightarrow> rbuf_u8 list \<Rightarrow> rbuf_u32 \<Rightarrow> rbuf_u32 \<Rightarrow>
   (rbuf_res \<times> rbuf_ctx \<times> rbuf_u8 list \<times> sub_copy list) option" where
  "rbuf_copy_to ctx buff offs sz =
     (if offs > buff_size (cache ctx) then Some (RBUF_ERR_BAD_OFFS, ctx, buff, [])
      else
        let ending_byte_no = offs + sz in
          if ending_byte_no > buff_size (cache ctx) then Some (RBUF_ERR_BAD_SIZE, ctx, buff, [])
          else if block_size (conf ctx) = 0 then None
          else
            let starting_block_idx = offs div block_size (conf ctx);
                ending_block_idx = ending_byte_no div block_size (conf ctx)
            in
              if starting_block_idx = ending_block_idx then
                (case bque_item (bque ctx) starting_block_idx of
                   BQUE_OK \<Rightarrow>
                     (let block_offs = offs mod block_size (conf ctx) in
                        case block_read (bque ctx) starting_block_idx block_offs buff 0 sz of
                          None \<Rightarrow> None
                        | Some buff' \<Rightarrow>
                            Some (RBUF_OK, ctx, buff',
                              [\<lparr>sc_block_idx = starting_block_idx, sc_block_offs = block_offs,
                                sc_buff_offs = 0, sc_size = sz\<rparr>]))
                 | _ \<Rightarrow> Some (RBUF_ERR, ctx, buff, []))
              else
                (case bque_item (bque ctx) starting_block_idx of
                   BQUE_OK \<Rightarrow>
                     (let block_offs = offs mod block_size (conf ctx);
                          curt_size = block_size (conf ctx) - block_offs
                      in
                        case block_read (bque ctx) starting_block_idx block_offs buff 0 curt_size of
                          None \<Rightarrow> None
                        | Some buff' \<Rightarrow>
                            (case copy_to_loop (starting_block_idx + 1) (ending_block_idx + 1)
                                    (block_size (conf ctx)) (bque ctx) curt_size (sz - curt_size)
                                    buff'
                                    [\<lparr>sc_block_idx = starting_block_idx,
                                      sc_block_offs = block_offs,
                                      sc_buff_offs = 0, sc_size = curt_size\<rparr>] of
                               None \<Rightarrow> None
                             | Some (res, buff'', calls) \<Rightarrow> Some (res, ctx, buff'', calls)))
                 | _ \<Rightarrow> Some (RBUF_ERR, ctx, buff, [])))"

section \<open>Notions used in the statements\<close>

text \<open>
  The number of blocks a logical size requires, in the words of the specification:
  quotient \<open>q\<close> and remainder \<open>r\<close> of the size by the block size, \<open>q\<close> blocks if
  \<open>r = 0\<close> and \<open>q + 1\<close> otherwise.
\<close>

definition required_blocks :: "rbuf_u32 \<Rightarrow> rbuf_u32 \<Rightarrow> rbuf_u32" where
  "required_blocks sz bs =
     (let q = sz div bs; r = sz mod bs in if r = 0 then q else q + 1)"

text \<open>The block store grants the next \<open>n\<close> appends.\<close>

definition grants :: "nat \<Rightarrow> bque_ctx \<Rightarrow> bool" where
  "grants n q = list_all (\<lambda>e. e = BQUE_OK) (take n (enqueue_outcomes q))"

text \<open>
  The context a successful \<^verbatim>\<open>rbuf_new\<close> hands out (lines 84 to 95): the configuration as
  given, a store without blocks and the cache zeroed by \<^verbatim>\<open>memset\<close>. The third argument
  lists the outcomes of the coming appends.
\<close>

definition fresh :: "rbuf_u32 \<Rightarrow> rbuf_u32 \<Rightarrow> bque_res list \<Rightarrow> rbuf_ctx" where
  "fresh bs mx outcomes =
     \<lparr>bque = \<lparr>blocks = [], enqueue_outcomes = outcomes\<rparr>,
      conf = \<lparr>block_size = bs, size_max = mx\<rparr>,
      cache = \<lparr>block_num = 0, buff_cap = 0, buff_size = 0, last_block_buff_size = 0\<rparr>\<rparr>"

text \<open>
  Every block of the store has the configured block size, which is not zero. A new buffer
  with a nonzero block size is in this state, \<^verbatim>\<open>rbuf_resize\<close> appends blocks of exactly
  that size, and a \<^verbatim>\<open>memcpy\<close> into a block keeps its length.
\<close>

definition blocks_sized :: "rbuf_ctx \<Rightarrow> bool" where
  "blocks_sized ctx =
     (block_size (conf ctx) \<noteq> 0 \<and>
      list_all (\<lambda>b. length b = unat (block_size (conf ctx))) (blocks (bque ctx)))"

text \<open>
  The two \<^verbatim>\<open>memcpy\<close> calls of a copy of 40 bytes at offset 500 over blocks of 512 bytes:
  12 bytes at offset 500 of block 0, then 28 bytes at offset 0 of block 1, taken from (or
  put at) offsets 0 and 12 of the caller's buffer.
\<close>

definition boundary_calls :: "sub_copy list" where
  "boundary_calls =
     [\<lparr>sc_block_idx = 0, sc_block_offs = 500, sc_buff_offs = 0, sc_size = 12\<rparr>,
      \<lparr>sc_block_idx = 1, sc_block_offs = 0, sc_buff_offs = 12, sc_size = 28\<rparr>]"

text \<open>
  Contexts for the examples: a buffer with blocks of 4 bytes and \<open>size_max = 16\<close> that
  holds the blocks \<open>bl\<close>, with the logical size \<open>sz\<close> and the last-block fill \<open>fill\<close>,
  and the buffer of the default configuration (blocks of 512 bytes, \<open>size_max = 1024\<close>)
  after a resize to 540. The lemmas \<open>resize_small\<close> and \<open>resize_default_540\<close> obtain
  them from \<^verbatim>\<open>rbuf_resize\<close> on a new buffer.
\<close>

definition small :: "rbuf_u8 list list \<Rightarrow> rbuf_u32 \<Rightarrow> rbuf_u32 \<Rightarrow> rbuf_ctx" where
  "small bl sz fill =
     \<lparr>bque = \<lparr>blocks = bl, enqueue_outcomes = []\<rparr>,
      conf = \<lparr>block_size = 4, size_max = 16\<rparr>,
      cache = \<lparr>block_num = word_of_nat (length bl), buff_cap = 4 * word_of_nat (length bl),
               buff_size = sz, last_block_buff_size = fill\<rparr>\<rparr>"

definition default_540 :: rbuf_ctx where
  "default_540 =
     \<lparr>bque = \<lparr>blocks = [replicate 512 0, replicate 512 0], enqueue_outcomes = []\<rparr>,
      conf = \<lparr>block_size = 512, size_max = 1024\<rparr>,
      cache = \<lparr>block_num = 2, buff_cap = 1024, buff_size = 540, last_block_buff_size = 28\<rparr>\<rparr>"

text \<open>
  The byte of the store at the logical position \<open>p\<close>, for blocks of \<open>m\<close> bytes: block
  \<open>p div m\<close>, offset \<open>p mod m\<close> (section 3 of the specification).
\<close>

definition byte_at :: "bque_ctx \<Rightarrow> nat \<Rightarrow> nat \<Rightarrow> rbuf_u8" where
  "byte_at q m p = blocks q ! (p div m) ! (p mod m)"

text \<open>
  The bookkeeping agrees with the store: the blocks have the configured size, the store
  holds exactly \<open>block_num\<close> blocks, the capacity is \<open>block_num * block_size\<close> (without
  wrapping) and covers the logical size. A new buffer is in this state, and a successful
  resize keeps it (\<open>coherent_fresh\<close>, \<open>resize_coherent\<close>); a resize that fails partway
  through the growth breaks it, the store then holding more blocks than \<open>block_num\<close>.
\<close>

definition coherent :: "rbuf_ctx \<Rightarrow> bool" where
  "coherent ctx =
     (blocks_sized ctx \<and>
      length (blocks (bque ctx)) = unat (block_num (cache ctx)) \<and>
      unat (buff_cap (cache ctx))
        = unat (block_num (cache ctx)) * unat (block_size (conf ctx)) \<and>
      unat (buff_size (cache ctx)) \<le> unat (buff_cap (cache ctx)))"

section \<open>Resize: the two loops and the block count\<close>

lemma unat_succ_less:
  fixes i d :: "'a::len word"
  assumes "i < d"
  shows "unat (i + 1) = Suc (unat i)"
proof -
  have "unat i < unat d"
    using assms by (simp add: word_less_nat_alt)
  moreover have "unat d < 2 ^ LENGTH('a)"
    by (rule unsigned_less)
  ultimately have "unat i + 1 < 2 ^ LENGTH('a)"
    by linarith
  then show ?thesis
    by (simp add: unat_word_ariths)
qed

lemma rounds_left:
  fixes i d :: "'a::len word"
  assumes "i < d"
  shows "unat d - unat i = Suc (unat d - unat (i + 1))"
  using assms unat_succ_less [OF assms] by (simp add: word_less_nat_alt)

lemma bque_enqueue_granted:
  assumes "grants (Suc n) q"
  shows "\<exists>q'. bque_enqueue q bs = (BQUE_OK, q') \<and> grants n q' \<and>
    blocks q' = blocks q @ [replicate (unat bs) 0]"
  using assms
  by (cases "enqueue_outcomes q") (auto simp: grants_def bque_enqueue_def)

lemma resize_enqueue_granted:
  "grants (unat d - unat i) q \<Longrightarrow>
   \<exists>q'. resize_enqueue i d bs q = (BQUE_OK, q') \<and>
     blocks q' = blocks q @ replicate (unat d - unat i) (replicate (unat bs) 0)"
proof (induction i d bs q rule: resize_enqueue.induct)
  case (1 i d bs q)
  show ?case
  proof (cases "i < d")
    case True
    note left = rounds_left [OF True]
    from "1.prems" left obtain q1 where
      q1: "bque_enqueue q bs = (BQUE_OK, q1)" "grants (unat d - unat (i + 1)) q1"
        "blocks q1 = blocks q @ [replicate (unat bs) 0]"
      using bque_enqueue_granted [of "unat d - unat (i + 1)" q bs] by auto
    from "1.IH" [OF True q1(1) [symmetric] refl q1(2)] obtain q' where
      "resize_enqueue (i + 1) d bs q1 = (BQUE_OK, q')"
      "blocks q' = blocks q1 @ replicate (unat d - unat (i + 1)) (replicate (unat bs) 0)"
      by blast
    then show ?thesis
      using True q1 left
      by (subst resize_enqueue.simps) (simp add: replicate_append_same)
  next
    case False
    then have "unat d - unat i = 0"
      by (simp add: word_less_nat_alt)
    with False show ?thesis
      by (subst resize_enqueue.simps) simp
  qed
qed

lemma resize_forfeit_enough:
  "unat d - unat i \<le> length (blocks q) \<Longrightarrow>
   \<exists>q'. resize_forfeit i d q = (BQUE_OK, q') \<and>
     blocks q' = take (length (blocks q) - (unat d - unat i)) (blocks q)"
proof (induction i d q rule: resize_forfeit.induct)
  case (1 i d q)
  show ?case
  proof (cases "i < d")
    case True
    note left = rounds_left [OF True]
    with "1.prems" have ne: "blocks q \<noteq> []"
      by auto
    define q1 where "q1 = q\<lparr>blocks := butlast (blocks q)\<rparr>"
    have q1: "bque_forfeit q = (BQUE_OK, q1)"
      using ne by (simp add: bque_forfeit_def q1_def)
    have "unat d - unat (i + 1) \<le> length (blocks q1)"
      using "1.prems" left by (simp add: q1_def)
    from "1.IH" [OF True q1 [symmetric] refl this] obtain q' where
      "resize_forfeit (i + 1) d q1 = (BQUE_OK, q')"
      "blocks q' = take (length (blocks q1) - (unat d - unat (i + 1))) (blocks q1)"
      by blast
    then show ?thesis
      using True q1 left "1.prems"
      by (subst resize_forfeit.simps) (simp add: q1_def butlast_conv_take)
  next
    case False
    then have "unat d - unat i = 0"
      by (simp add: word_less_nat_alt)
    with False show ?thesis
      by (subst resize_forfeit.simps) simp
  qed
qed

lemma nat_ceil_div:
  fixes s b :: nat
  assumes "0 < b"
  shows "(s + b - 1) div b = (if s mod b = 0 then s div b else s div b + 1)"
proof -
  define q r where "q = s div b" and "r = s mod b"
  have s: "s = q * b + r" and r: "r < b"
    using assms by (simp_all add: q_def r_def)
  show ?thesis
  proof (cases "r = 0")
    case True
    with s assms have "s + b - 1 = q * b + (b - 1)"
      by simp
    then have "(s + b - 1) div b = q + (b - 1) div b"
      using assms by (simp only: div_mult_self3)
    with True assms show ?thesis
      by (simp add: q_def r_def)
  next
    case False
    with s have "s + b - 1 = (q + 1) * b + (r - 1)"
      by simp
    then have "(s + b - 1) div b = (q + 1) + (r - 1) div b"
      using assms by (simp only: div_mult_self3)
    moreover have "r - 1 < b"
      using r by simp
    ultimately show ?thesis
      using False by (simp add: q_def r_def)
  qed
qed

lemma quotient_succ:
  fixes sz bs :: rbuf_u32
  assumes "sz mod bs \<noteq> 0"
  shows "unat (sz div bs + 1) = unat (sz div bs) + 1"
proof -
  have r: "unat sz mod unat bs \<noteq> 0"
    using assms by (metis unat_mod unat_eq_0)
  have "unat sz div unat bs < unat sz"
  proof (cases "unat bs = 0")
    case True
    with r show ?thesis by simp
  next
    case False
    have "unat sz = (unat sz div unat bs) * unat bs + unat sz mod unat bs"
      by simp
    with r have "(unat sz div unat bs) * unat bs < unat sz"
      by linarith
    moreover have "unat sz div unat bs \<le> (unat sz div unat bs) * unat bs"
      using False by simp
    ultimately show ?thesis by linarith
  qed
  moreover have "unat sz < 2 ^ LENGTH(32)"
    by (rule unsigned_less)
  ultimately have "unat (sz div bs) + unat (1 :: 32 word) < 2 ^ LENGTH(32)"
    by (simp add: unat_div)
  then show ?thesis
    by (metis unat_add_lem unat_1)
qed

lemma quotient_zero:
  fixes sz bs :: rbuf_u32
  assumes "bs \<noteq> 0" "sz mod bs = 0"
  shows "sz div bs = 0 \<longleftrightarrow> sz = 0"
  by (metis assms(2) bits_mod_div_trivial div_mult_mod_eq mult_zero_left
    nat_arith.rule0)

text \<open>
  The growth loop when the store refuses an append: if the next \<open>k\<close> appends are granted,
  the one after them is refused and the loop has more than \<open>k\<close> rounds to go, the loop
  stops with the outcome of the refused append, the \<open>k\<close> granted blocks appended.
\<close>

lemma first_refusal:
  "\<not> list_all P (take n xs) \<Longrightarrow>
   \<exists>k<n. list_all P (take k xs) \<and> k < length xs \<and> \<not> P (xs ! k)"
proof (induction xs arbitrary: n)
  case Nil
  then show ?case
    by simp
next
  case (Cons x xs)
  then obtain m where n: "n = Suc m"
    by (cases n) auto
  show ?case
  proof (cases "P x")
    case True
    with Cons.prems n have "\<not> list_all P (take m xs)"
      by simp
    from Cons.IH [OF this] obtain k where
      "k < m" "list_all P (take k xs)" "k < length xs" "\<not> P (xs ! k)"
      by blast
    with True n have "Suc k < n \<and> list_all P (take (Suc k) (x # xs)) \<and>
        Suc k < length (x # xs) \<and> \<not> P ((x # xs) ! Suc k)"
      by simp
    then show ?thesis
      by blast
  next
    case False
    with n have "0 < n \<and> list_all P (take 0 (x # xs)) \<and> 0 < length (x # xs) \<and>
        \<not> P ((x # xs) ! 0)"
      by simp
    then show ?thesis
      by blast
  qed
qed

lemma bque_enqueue_refused:
  assumes "enqueue_outcomes q \<noteq> []" and "enqueue_outcomes q ! 0 \<noteq> BQUE_OK"
  shows "bque_enqueue q bs = (enqueue_outcomes q ! 0, q\<lparr>enqueue_outcomes := tl (enqueue_outcomes q)\<rparr>)"
proof (cases "enqueue_outcomes q")
  case Nil
  with assms show ?thesis
    by simp
next
  case (Cons e rest)
  with assms show ?thesis
    by (cases e) (simp_all add: bque_enqueue_def)
qed

lemma bque_enqueue_next:
  assumes "grants (Suc k) q" and "Suc k < length (enqueue_outcomes q)"
  shows "\<exists>q'. bque_enqueue q bs = (BQUE_OK, q') \<and> grants k q' \<and>
    blocks q' = blocks q @ [replicate (unat bs) 0] \<and>
    k < length (enqueue_outcomes q') \<and>
    enqueue_outcomes q' ! k = enqueue_outcomes q ! Suc k"
  using assms
  by (cases "enqueue_outcomes q") (auto simp: grants_def bque_enqueue_def)

lemma resize_enqueue_refused:
  "grants k q \<Longrightarrow> k < length (enqueue_outcomes q) \<Longrightarrow>
   enqueue_outcomes q ! k \<noteq> BQUE_OK \<Longrightarrow> k < unat d - unat i \<Longrightarrow>
   \<exists>q'. resize_enqueue i d bs q = (enqueue_outcomes q ! k, q') \<and>
     blocks q' = blocks q @ replicate k (replicate (unat bs) 0)"
proof (induction i d bs q arbitrary: k rule: resize_enqueue.induct)
  case (1 i d bs q)
  from "1.prems"(4) have lt: "i < d"
    by (simp add: word_less_nat_alt)
  note left = rounds_left [OF lt]
  show ?case
  proof (cases k)
    case 0
    with "1.prems" have "enqueue_outcomes q \<noteq> []" "enqueue_outcomes q ! 0 \<noteq> BQUE_OK"
      by auto
    from bque_enqueue_refused [OF this, of bs] this(2) lt 0 show ?thesis
      by (subst resize_enqueue.simps) (simp split: bque_res.splits)
  next
    case (Suc k')
    with "1.prems" obtain q1 where
      q1: "bque_enqueue q bs = (BQUE_OK, q1)" "grants k' q1"
        "blocks q1 = blocks q @ [replicate (unat bs) 0]"
        "k' < length (enqueue_outcomes q1)"
        "enqueue_outcomes q1 ! k' = enqueue_outcomes q ! Suc k'"
      using bque_enqueue_next [of k' q bs] by auto
    from "1.prems" Suc q1(5) have refused: "enqueue_outcomes q1 ! k' \<noteq> BQUE_OK"
      by simp
    from "1.prems"(4) Suc left have rounds: "k' < unat d - unat (i + 1)"
      by simp
    from "1.IH" [OF lt q1(1) [symmetric] refl q1(2) q1(4) refused rounds] obtain q' where
      "resize_enqueue (i + 1) d bs q1 = (enqueue_outcomes q1 ! k', q')"
      "blocks q' = blocks q1 @ replicate k' (replicate (unat bs) 0)"
      by blast
    then show ?thesis
      using lt q1 Suc
      by (subst resize_enqueue.simps) (simp add: replicate_append_same)
  qed
qed

lemma replicate_numeral: "replicate (numeral k) x = x # replicate (pred_numeral k) x"
  by (simp add: numeral_eq_Suc)

section \<open>Resize: the claims\<close>

text \<open>
  Claim C4. For every size above \<open>size_max\<close>, \<^verbatim>\<open>rbuf_resize\<close> fails with
  \<^verbatim>\<open>RBUF_ERR_BAD_SIZE\<close> and returns the context as it was: the store with its blocks, the
  configuration and all four cached fields. The check stands before the division, so the
  statement needs nothing of the block size.
\<close>

theorem resize_too_large:
  assumes "sz > size_max (conf ctx)"
  shows "rbuf_resize ctx sz = Some (RBUF_ERR_BAD_SIZE, ctx)"
  using assms by (simp add: rbuf_resize_def)

theorem resize_too_large_witness:
  "(17 :: rbuf_u32) > size_max (conf (fresh 4 16 [])) \<and>
   rbuf_resize (fresh 4 16 []) 17 = Some (RBUF_ERR_BAD_SIZE, fresh 4 16 [])"
proof -
  have h: "(17 :: rbuf_u32) > size_max (conf (fresh 4 16 []))"
    by (simp add: fresh_def)
  show ?thesis
    using h resize_too_large [OF h] by simp
qed

text \<open>
  A successful resize went through lines 181 to 190, on a context with the same
  configuration.
\<close>

lemma resize_ok_cases:
  assumes "rbuf_resize ctx sz = Some (RBUF_OK, ctx')"
  shows "block_size (conf ctx) \<noteq> 0 \<and>
    (\<exists>c. ctx' = resize_sizes sz (sz div block_size (conf ctx)) (sz mod block_size (conf ctx)) c \<and>
         conf c = conf ctx)"
  using assms
  by (auto simp: rbuf_resize_def Let_def split: if_splits prod.splits bque_res.splits)

text \<open>
  Claim C5. After every successful \<^verbatim>\<open>rbuf_resize\<close> to \<open>sz\<close>, whatever the size before,
  the fill of the last block is \<open>sz mod block_size\<close>, except that it is \<open>block_size\<close>
  when \<open>sz\<close> is a nonzero exact multiple of the block size.
\<close>

theorem resize_last_block_fill:
  assumes "rbuf_resize ctx sz = Some (RBUF_OK, ctx')"
  shows "last_block_buff_size (cache ctx') =
    (if sz \<noteq> 0 \<and> sz mod block_size (conf ctx) = 0 then block_size (conf ctx)
     else sz mod block_size (conf ctx))"
proof -
  from resize_ok_cases [OF assms] obtain c where
    bs: "block_size (conf ctx) \<noteq> 0" and
    c: "ctx' = resize_sizes sz (sz div block_size (conf ctx)) (sz mod block_size (conf ctx)) c"
      "conf c = conf ctx"
    by blast
  show ?thesis
  proof (cases "sz mod block_size (conf ctx) = 0")
    case True
    with quotient_zero [OF bs True] c show ?thesis
      by (simp add: resize_sizes_def)
  next
    case False
    with c show ?thesis
      by (simp add: resize_sizes_def)
  qed
qed

theorem resize_last_block_fill_witness:
  "rbuf_resize (fresh 4 16 []) 8 =
     Some (RBUF_OK,
       \<lparr>bque = \<lparr>blocks = [[0, 0, 0, 0], [0, 0, 0, 0]], enqueue_outcomes = []\<rparr>,
        conf = \<lparr>block_size = 4, size_max = 16\<rparr>,
        cache = \<lparr>block_num = 2, buff_cap = 8, buff_size = 8, last_block_buff_size = 4\<rparr>\<rparr>) \<and>
   last_block_buff_size (cache
       \<lparr>bque = \<lparr>blocks = [[0, 0, 0, 0], [0, 0, 0, 0]], enqueue_outcomes = []\<rparr>,
        conf = \<lparr>block_size = 4, size_max = 16\<rparr>,
        cache = \<lparr>block_num = 2, buff_cap = 8, buff_size = 8, last_block_buff_size = 4\<rparr>\<rparr>) =
     (4 :: rbuf_u32)"
proof -
  have h: "rbuf_resize (fresh 4 16 []) 8 =
     Some (RBUF_OK,
       \<lparr>bque = \<lparr>blocks = [[0, 0, 0, 0], [0, 0, 0, 0]], enqueue_outcomes = []\<rparr>,
        conf = \<lparr>block_size = 4, size_max = 16\<rparr>,
        cache = \<lparr>block_num = 2, buff_cap = 8, buff_size = 8, last_block_buff_size = 4\<rparr>\<rparr>)"
    by (simp add: rbuf_resize_def fresh_def resize_enqueue.simps bque_enqueue_def
        resize_sizes_def replicate_numeral)
  show ?thesis
    using h resize_last_block_fill [OF h] by simp
qed

lemma required_blocks_ceiling:
  assumes "bs \<noteq> 0"
  shows "unat (required_blocks sz bs) = (unat sz + unat bs - 1) div unat bs"
proof -
  have pos: "0 < unat bs"
    using assms by (simp add: unat_gt_0)
  have r: "sz mod bs = 0 \<longleftrightarrow> unat sz mod unat bs = 0"
    by (metis unat_mod unat_eq_0)
  note ceil = nat_ceil_div [OF pos, of "unat sz"]
  show ?thesis
  proof (cases "sz mod bs = 0")
    case True
    with r have "(unat sz + unat bs - 1) div unat bs = unat sz div unat bs"
      using ceil by simp
    with True show ?thesis
      by (simp add: required_blocks_def unat_div)
  next
    case False
    with r have "(unat sz + unat bs - 1) div unat bs = unat sz div unat bs + 1"
      using ceil by simp
    with False quotient_succ [OF False] show ?thesis
      by (simp add: required_blocks_def unat_div)
  qed
qed

lemma new_block_num_required:
  "sz div bs + (if sz mod bs \<noteq> 0 then 1 else 0) = required_blocks sz bs"
  by (simp add: required_blocks_def)

lemma rbuf_resize_required:
  "rbuf_resize ctx sz =
     (if sz > size_max (conf ctx) then Some (RBUF_ERR_BAD_SIZE, ctx)
      else if block_size (conf ctx) = 0 then None
      else if required_blocks sz (block_size (conf ctx)) > block_num (cache ctx) then
        (case resize_enqueue 0 (required_blocks sz (block_size (conf ctx)) - block_num (cache ctx))
                (block_size (conf ctx)) (bque ctx) of
           (BQUE_OK, q) \<Rightarrow>
             Some (RBUF_OK,
               resize_sizes sz (sz div block_size (conf ctx)) (sz mod block_size (conf ctx))
                 (ctx\<lparr>bque := q,
                      cache := (cache ctx)
                        \<lparr>block_num := required_blocks sz (block_size (conf ctx)),
                         buff_cap := block_size (conf ctx)
                            * required_blocks sz (block_size (conf ctx))\<rparr>\<rparr>))
         | (BQUE_ERR_NO_MEM, q) \<Rightarrow> Some (RBUF_ERR_NO_MEM, ctx\<lparr>bque := q\<rparr>)
         | (BQUE_ERR, q) \<Rightarrow> Some (RBUF_ERR, ctx\<lparr>bque := q\<rparr>))
      else if required_blocks sz (block_size (conf ctx)) < block_num (cache ctx) then
        (case resize_forfeit 0 (block_num (cache ctx) - required_blocks sz (block_size (conf ctx)))
                (bque ctx) of
           (BQUE_OK, q) \<Rightarrow>
             Some (RBUF_OK,
               resize_sizes sz (sz div block_size (conf ctx)) (sz mod block_size (conf ctx))
                 (ctx\<lparr>bque := q,
                      cache := (cache ctx)
                        \<lparr>block_num := required_blocks sz (block_size (conf ctx)),
                         buff_cap := block_size (conf ctx)
                            * required_blocks sz (block_size (conf ctx))\<rparr>\<rparr>))
         | (_, q) \<Rightarrow> Some (RBUF_ERR, ctx\<lparr>bque := q\<rparr>))
      else
        Some (RBUF_OK,
          resize_sizes sz (sz div block_size (conf ctx)) (sz mod block_size (conf ctx)) ctx))"
  unfolding rbuf_resize_def Let_def new_block_num_required ..

text \<open>
  The same for \<^verbatim>\<open>rbuf_resize\<close>: the call returns \<^verbatim>\<open>RBUF_ERR_NO_MEM\<close> if the refused append
  ran out of memory and \<^verbatim>\<open>RBUF_ERR\<close> otherwise (lines 158 to 162), with the configuration
  and the cache as they were and the granted blocks left in the store.
\<close>

lemma resize_refused:
  assumes le: "sz \<le> size_max (conf ctx)"
    and bs: "block_size (conf ctx) \<noteq> 0"
    and granted: "grants k (bque ctx)"
    and within: "k < length (enqueue_outcomes (bque ctx))"
    and refused: "enqueue_outcomes (bque ctx) ! k \<noteq> BQUE_OK"
    and partway: "k < unat (required_blocks sz (block_size (conf ctx)))
                    - unat (block_num (cache ctx))"
  shows "\<exists>ctx'. rbuf_resize ctx sz =
      Some (if enqueue_outcomes (bque ctx) ! k = BQUE_ERR_NO_MEM then RBUF_ERR_NO_MEM
            else RBUF_ERR, ctx') \<and>
    cache ctx' = cache ctx \<and> conf ctx' = conf ctx \<and>
    blocks (bque ctx') =
      blocks (bque ctx) @ replicate k (replicate (unat (block_size (conf ctx))) 0)"
proof -
  define new_block_num where "new_block_num = required_blocks sz (block_size (conf ctx))"
  note resize = rbuf_resize_required [of ctx sz, folded new_block_num_def]
  have not_gt: "\<not> sz > size_max (conf ctx)"
    using le by simp
  from partway have grow: "new_block_num > block_num (cache ctx)"
    by (simp add: new_block_num_def word_less_nat_alt)
  then have "unat (new_block_num - block_num (cache ctx)) - unat (0 :: rbuf_u32) =
      unat new_block_num - unat (block_num (cache ctx))"
    by (simp add: unat_sub)
  with partway have "k < unat (new_block_num - block_num (cache ctx)) - unat (0 :: rbuf_u32)"
    by (simp add: new_block_num_def)
  from resize_enqueue_refused [OF granted within refused this, of "block_size (conf ctx)"]
  obtain q where q:
    "resize_enqueue 0 (new_block_num - block_num (cache ctx)) (block_size (conf ctx)) (bque ctx)
       = (enqueue_outcomes (bque ctx) ! k, q)"
    "blocks q = blocks (bque ctx) @ replicate k (replicate (unat (block_size (conf ctx))) 0)"
    by blast
  have "rbuf_resize ctx sz =
      Some (if enqueue_outcomes (bque ctx) ! k = BQUE_ERR_NO_MEM then RBUF_ERR_NO_MEM
            else RBUF_ERR, ctx\<lparr>bque := q\<rparr>)"
    using refused grow not_gt bs q(1)
    by (cases "enqueue_outcomes (bque ctx) ! k") (simp_all add: resize)
  with q(2) show ?thesis
    by simp
qed

text \<open>
  Claim C1, as amended. Let \<open>sz \<le> size_max\<close>, the block size be nonzero and the store hold
  at least the blocks the cache counts. The call issues as many appends as the required
  block count exceeds the cached one. If the store grants them, \<^verbatim>\<open>rbuf_resize\<close> succeeds,
  and \<^verbatim>\<open>rbuf_status\<close> on the result reports the logical size \<open>sz\<close> and the block count
  \<open>q\<close> if \<open>r = 0\<close> else \<open>q + 1\<close>, which is the ceiling of \<open>sz / block_size\<close>. If the store
  refuses one of them, \<^verbatim>\<open>rbuf_resize\<close> returns \<^verbatim>\<open>RBUF_ERR_NO_MEM\<close> or \<^verbatim>\<open>RBUF_ERR\<close>
  instead, and the cached fields, which \<^verbatim>\<open>rbuf_status\<close> reports, stay as they were.
\<close>

theorem resize_then_status:
  assumes le: "sz \<le> size_max (conf ctx)"
    and bs: "block_size (conf ctx) \<noteq> 0"
    and held: "unat (block_num (cache ctx)) \<le> length (blocks (bque ctx))"
  shows "(grants (unat (required_blocks sz (block_size (conf ctx)))
            - unat (block_num (cache ctx))) (bque ctx) \<longrightarrow>
      (\<exists>ctx'. rbuf_resize ctx sz = Some (RBUF_OK, ctx') \<and>
        rbuf_status ctx' =
          (RBUF_OK, \<lparr>stat_block_num = required_blocks sz (block_size (conf ctx)),
                     stat_buff_size = sz\<rparr>) \<and>
        unat (required_blocks sz (block_size (conf ctx))) =
          (unat sz + unat (block_size (conf ctx)) - 1) div unat (block_size (conf ctx)))) \<and>
    (\<not> grants (unat (required_blocks sz (block_size (conf ctx)))
            - unat (block_num (cache ctx))) (bque ctx) \<longrightarrow>
      (\<exists>res ctx'. rbuf_resize ctx sz = Some (res, ctx') \<and>
        (res = RBUF_ERR_NO_MEM \<or> res = RBUF_ERR) \<and>
        cache ctx' = cache ctx \<and> rbuf_status ctx' = rbuf_status ctx))"
proof (intro conjI impI)
  assume granted: "grants (unat (required_blocks sz (block_size (conf ctx)))
                    - unat (block_num (cache ctx))) (bque ctx)"
  define new_block_num where "new_block_num = required_blocks sz (block_size (conf ctx))"
  note resize = rbuf_resize_required [of ctx sz, folded new_block_num_def]
  have ceil: "unat new_block_num =
      (unat sz + unat (block_size (conf ctx)) - 1) div unat (block_size (conf ctx))"
    unfolding new_block_num_def by (rule required_blocks_ceiling [OF bs])
  have not_gt: "\<not> sz > size_max (conf ctx)"
    using le by simp
  consider (grow) "new_block_num > block_num (cache ctx)"
    | (shrink) "new_block_num < block_num (cache ctx)"
    | (same) "new_block_num = block_num (cache ctx)"
    by (metis linorder_neqE_linordered_idom not_less_iff_gr_or_eq word_less_def word_uint_eq_iff)
  then have "\<exists>ctx'. rbuf_resize ctx sz = Some (RBUF_OK, ctx') \<and>
    block_num (cache ctx') = new_block_num \<and> buff_size (cache ctx') = sz"
  proof cases
    case grow
    then have "unat (new_block_num - block_num (cache ctx)) - unat (0 :: rbuf_u32) =
        unat new_block_num - unat (block_num (cache ctx))"
      by (simp add: unat_sub)
    with granted obtain q where
      "resize_enqueue 0 (new_block_num - block_num (cache ctx)) (block_size (conf ctx)) (bque ctx)
         = (BQUE_OK, q)"
      using resize_enqueue_granted
        [of "new_block_num - block_num (cache ctx)" 0 "bque ctx" "block_size (conf ctx)"]
      by (auto simp: new_block_num_def)
    with grow not_gt bs show ?thesis
      by (simp add: resize resize_sizes_def)
  next
    case shrink
    then have "unat (block_num (cache ctx) - new_block_num) - unat (0 :: rbuf_u32)
        \<le> length (blocks (bque ctx))"
      using held by (simp add: unat_sub)
    then obtain q where
      "resize_forfeit 0 (block_num (cache ctx) - new_block_num) (bque ctx) = (BQUE_OK, q)"
      using resize_forfeit_enough by blast
    moreover have "\<not> block_num (cache ctx) < new_block_num"
      using shrink by (rule less_not_sym)
    ultimately show ?thesis
      using shrink not_gt bs by (simp add: resize resize_sizes_def)
  next
    case same
    with not_gt bs show ?thesis
      by (simp add: resize resize_sizes_def)
  qed
  then show "\<exists>ctx'. rbuf_resize ctx sz = Some (RBUF_OK, ctx') \<and>
      rbuf_status ctx' =
        (RBUF_OK, \<lparr>stat_block_num = required_blocks sz (block_size (conf ctx)),
                   stat_buff_size = sz\<rparr>) \<and>
      unat (required_blocks sz (block_size (conf ctx))) =
        (unat sz + unat (block_size (conf ctx)) - 1) div unat (block_size (conf ctx))"
    using ceil by (auto simp: rbuf_status_def new_block_num_def)
next
  assume "\<not> grants (unat (required_blocks sz (block_size (conf ctx)))
            - unat (block_num (cache ctx))) (bque ctx)"
  then obtain k where k: "k < unat (required_blocks sz (block_size (conf ctx)))
        - unat (block_num (cache ctx))"
      "grants k (bque ctx)" "k < length (enqueue_outcomes (bque ctx))"
      "enqueue_outcomes (bque ctx) ! k \<noteq> BQUE_OK"
    unfolding grants_def using first_refusal by blast
  from resize_refused [OF le bs k(2) k(3) k(4) k(1)] obtain ctx' where
    "rbuf_resize ctx sz =
      Some (if enqueue_outcomes (bque ctx) ! k = BQUE_ERR_NO_MEM then RBUF_ERR_NO_MEM
            else RBUF_ERR, ctx')"
    "cache ctx' = cache ctx"
    by blast
  then have "rbuf_resize ctx sz =
      Some (if enqueue_outcomes (bque ctx) ! k = BQUE_ERR_NO_MEM then RBUF_ERR_NO_MEM
            else RBUF_ERR, ctx') \<and>
    ((if enqueue_outcomes (bque ctx) ! k = BQUE_ERR_NO_MEM then RBUF_ERR_NO_MEM
      else RBUF_ERR) = RBUF_ERR_NO_MEM \<or>
     (if enqueue_outcomes (bque ctx) ! k = BQUE_ERR_NO_MEM then RBUF_ERR_NO_MEM
      else RBUF_ERR) = RBUF_ERR) \<and>
    cache ctx' = cache ctx \<and> rbuf_status ctx' = rbuf_status ctx"
    by (simp add: rbuf_status_def)
  then show "\<exists>res ctx'. rbuf_resize ctx sz = Some (res, ctx') \<and>
      (res = RBUF_ERR_NO_MEM \<or> res = RBUF_ERR) \<and>
      cache ctx' = cache ctx \<and> rbuf_status ctx' = rbuf_status ctx"
    by blast
qed

theorem resize_then_status_witness:
  "(6 :: rbuf_u32) \<le> size_max (conf (fresh 4 16 [])) \<and>
   block_size (conf (fresh 4 16 [])) \<noteq> 0 \<and>
   unat (block_num (cache (fresh 4 16 []))) \<le> length (blocks (bque (fresh 4 16 []))) \<and>
   grants (unat (required_blocks 6 (block_size (conf (fresh 4 16 []))))
            - unat (block_num (cache (fresh 4 16 [])))) (bque (fresh 4 16 [])) \<and>
   (\<exists>ctx'. rbuf_resize (fresh 4 16 []) 6 = Some (RBUF_OK, ctx') \<and>
      rbuf_status ctx' = (RBUF_OK, \<lparr>stat_block_num = 2, stat_buff_size = 6\<rparr>)) \<and>
   (6 :: rbuf_u32) \<le> size_max (conf (fresh 4 16 [BQUE_OK, BQUE_ERR])) \<and>
   block_size (conf (fresh 4 16 [BQUE_OK, BQUE_ERR])) \<noteq> 0 \<and>
   unat (block_num (cache (fresh 4 16 [BQUE_OK, BQUE_ERR])))
     \<le> length (blocks (bque (fresh 4 16 [BQUE_OK, BQUE_ERR]))) \<and>
   \<not> grants (unat (required_blocks 6 (block_size (conf (fresh 4 16 [BQUE_OK, BQUE_ERR]))))
            - unat (block_num (cache (fresh 4 16 [BQUE_OK, BQUE_ERR]))))
        (bque (fresh 4 16 [BQUE_OK, BQUE_ERR])) \<and>
   (\<exists>res ctx'. rbuf_resize (fresh 4 16 [BQUE_OK, BQUE_ERR]) 6 = Some (res, ctx') \<and>
      (res = RBUF_ERR_NO_MEM \<or> res = RBUF_ERR) \<and>
      rbuf_status ctx' = (RBUF_OK, \<lparr>stat_block_num = 0, stat_buff_size = 0\<rparr>))"
proof -
  have le: "(6 :: rbuf_u32) \<le> size_max (conf (fresh 4 16 []))"
    and bs: "block_size (conf (fresh 4 16 [])) \<noteq> 0"
    and held: "unat (block_num (cache (fresh 4 16 []))) \<le> length (blocks (bque (fresh 4 16 [])))"
    and granted: "grants (unat (required_blocks 6 (block_size (conf (fresh 4 16 []))))
            - unat (block_num (cache (fresh 4 16 [])))) (bque (fresh 4 16 []))"
    by (simp_all add: fresh_def grants_def)
  have two: "required_blocks 6 (block_size (conf (fresh 4 16 []))) = 2"
    by (simp add: fresh_def required_blocks_def)
  have ok: "\<exists>ctx'. rbuf_resize (fresh 4 16 []) 6 = Some (RBUF_OK, ctx') \<and>
      rbuf_status ctx' = (RBUF_OK, \<lparr>stat_block_num = 2, stat_buff_size = 6\<rparr>)"
    using resize_then_status [OF le bs held] granted two by auto
  let ?ctx = "fresh 4 16 [BQUE_OK, BQUE_ERR]"
  have le': "(6 :: rbuf_u32) \<le> size_max (conf ?ctx)"
    and bs': "block_size (conf ?ctx) \<noteq> 0"
    and held': "unat (block_num (cache ?ctx)) \<le> length (blocks (bque ?ctx))"
    by (simp_all add: fresh_def)
  have "required_blocks 6 (block_size (conf ?ctx)) = 2"
    by (simp add: fresh_def required_blocks_def)
  then have refused: "\<not> grants (unat (required_blocks 6 (block_size (conf ?ctx)))
            - unat (block_num (cache ?ctx))) (bque ?ctx)"
    by (simp add: fresh_def grants_def)
  have status: "rbuf_status ?ctx = (RBUF_OK, \<lparr>stat_block_num = 0, stat_buff_size = 0\<rparr>)"
    by (simp add: fresh_def rbuf_status_def)
  have failed: "\<exists>res ctx'. rbuf_resize ?ctx 6 = Some (res, ctx') \<and>
      (res = RBUF_ERR_NO_MEM \<or> res = RBUF_ERR) \<and>
      rbuf_status ctx' = (RBUF_OK, \<lparr>stat_block_num = 0, stat_buff_size = 0\<rparr>)"
    using resize_then_status [OF le' bs' held'] refused status by auto
  show ?thesis
    using le bs held granted ok le' bs' held' refused failed by blast
qed

text \<open>
  The claim as stated promises success for every size up to \<open>size_max\<close>. On a new buffer
  whose store refuses the first append, a resize to 4 with \<open>size_max = 16\<close> returns
  \<^verbatim>\<open>RBUF_ERR_NO_MEM\<close> (lines 158 to 160).
\<close>

theorem resize_refused_append_counterexample:
  "(4 :: rbuf_u32) \<le> size_max (conf (fresh 4 16 [BQUE_ERR_NO_MEM])) \<and>
   rbuf_resize (fresh 4 16 [BQUE_ERR_NO_MEM]) 4 = Some (RBUF_ERR_NO_MEM, fresh 4 16 [])"
  by (simp add: rbuf_resize_def fresh_def resize_enqueue.simps bque_enqueue_def)

text \<open>
  A failed resize leaves the configuration and the cache alone: every error return of
  \<^verbatim>\<open>rbuf_resize\<close> stands before the assignments to the cache.
\<close>

lemma resize_error_frame:
  assumes "rbuf_resize ctx sz = Some (res, ctx')" and "res \<noteq> RBUF_OK"
  shows "cache ctx' = cache ctx \<and> conf ctx' = conf ctx"
  using assms
  by (auto simp: rbuf_resize_def Let_def split: if_splits prod.splits bque_res.splits)

text \<open>
  Claim C10. Let \<^verbatim>\<open>rbuf_resize\<close> fail partway through a growth: the size is within
  \<open>size_max\<close>, the block size is nonzero, the store grants the first \<open>k > 0\<close> appends of
  the call and refuses the next one, which the call still needs (the required block count
  exceeds the cached one by more than \<open>k\<close>). Then the call returns \<^verbatim>\<open>RBUF_ERR_NO_MEM\<close> if
  the refused append ran out of memory and \<^verbatim>\<open>RBUF_ERR\<close> otherwise, none of the cached
  fields \<open>block_num\<close>, \<open>buff_cap\<close>, \<open>buff_size\<close>, \<open>last_block_buff_size\<close> has changed,
  the \<open>k\<close> appended blocks are still in the store, and the store, which held at least the
  blocks the cache counted, now holds more blocks than \<open>block_num\<close> records.
\<close>

theorem resize_partial_growth:
  assumes le: "sz \<le> size_max (conf ctx)"
    and bs: "block_size (conf ctx) \<noteq> 0"
    and held: "unat (block_num (cache ctx)) \<le> length (blocks (bque ctx))"
    and some: "0 < k"
    and granted: "grants k (bque ctx)"
    and within: "k < length (enqueue_outcomes (bque ctx))"
    and refused: "enqueue_outcomes (bque ctx) ! k \<noteq> BQUE_OK"
    and partway: "k < unat (required_blocks sz (block_size (conf ctx)))
                    - unat (block_num (cache ctx))"
  shows "\<exists>ctx'. rbuf_resize ctx sz =
      Some (if enqueue_outcomes (bque ctx) ! k = BQUE_ERR_NO_MEM then RBUF_ERR_NO_MEM
            else RBUF_ERR, ctx') \<and>
    cache ctx' = cache ctx \<and>
    blocks (bque ctx') =
      blocks (bque ctx) @ replicate k (replicate (unat (block_size (conf ctx))) 0) \<and>
    length (blocks (bque ctx)) < length (blocks (bque ctx')) \<and>
    unat (block_num (cache ctx')) < length (blocks (bque ctx'))"
proof -
  from resize_refused [OF le bs granted within refused partway] obtain ctx' where
    run: "rbuf_resize ctx sz =
      Some (if enqueue_outcomes (bque ctx) ! k = BQUE_ERR_NO_MEM then RBUF_ERR_NO_MEM
            else RBUF_ERR, ctx')"
    and frame: "cache ctx' = cache ctx"
    and store: "blocks (bque ctx') =
      blocks (bque ctx) @ replicate k (replicate (unat (block_size (conf ctx))) 0)"
    by blast
  from store have "length (blocks (bque ctx')) = length (blocks (bque ctx)) + k"
    by simp
  with some held frame have "length (blocks (bque ctx)) < length (blocks (bque ctx'))"
    "unat (block_num (cache ctx')) < length (blocks (bque ctx'))"
    by simp_all
  with run frame store show ?thesis
    by blast
qed

theorem resize_partial_growth_witness:
  "(9 :: rbuf_u32) \<le> size_max (conf (fresh 4 16 [BQUE_OK, BQUE_ERR_NO_MEM])) \<and>
   block_size (conf (fresh 4 16 [BQUE_OK, BQUE_ERR_NO_MEM])) \<noteq> 0 \<and>
   unat (block_num (cache (fresh 4 16 [BQUE_OK, BQUE_ERR_NO_MEM])))
     \<le> length (blocks (bque (fresh 4 16 [BQUE_OK, BQUE_ERR_NO_MEM]))) \<and>
   0 < (1 :: nat) \<and>
   grants 1 (bque (fresh 4 16 [BQUE_OK, BQUE_ERR_NO_MEM])) \<and>
   1 < length (enqueue_outcomes (bque (fresh 4 16 [BQUE_OK, BQUE_ERR_NO_MEM]))) \<and>
   enqueue_outcomes (bque (fresh 4 16 [BQUE_OK, BQUE_ERR_NO_MEM])) ! 1 \<noteq> BQUE_OK \<and>
   1 < unat (required_blocks 9 (block_size (conf (fresh 4 16 [BQUE_OK, BQUE_ERR_NO_MEM]))))
         - unat (block_num (cache (fresh 4 16 [BQUE_OK, BQUE_ERR_NO_MEM]))) \<and>
   (\<exists>ctx'. rbuf_resize (fresh 4 16 [BQUE_OK, BQUE_ERR_NO_MEM]) 9
        = Some (RBUF_ERR_NO_MEM, ctx') \<and>
      cache ctx' = \<lparr>block_num = 0, buff_cap = 0, buff_size = 0, last_block_buff_size = 0\<rparr> \<and>
      blocks (bque ctx') = [[0, 0, 0, 0]] \<and>
      unat (block_num (cache ctx')) < length (blocks (bque ctx')))"
proof -
  let ?ctx = "fresh 4 16 [BQUE_OK, BQUE_ERR_NO_MEM]"
  have le: "(9 :: rbuf_u32) \<le> size_max (conf ?ctx)"
    and bs: "block_size (conf ?ctx) \<noteq> 0"
    and held: "unat (block_num (cache ?ctx)) \<le> length (blocks (bque ?ctx))"
    and some: "0 < (1 :: nat)"
    and granted: "grants 1 (bque ?ctx)"
    and within: "1 < length (enqueue_outcomes (bque ?ctx))"
    and refused: "enqueue_outcomes (bque ?ctx) ! 1 \<noteq> BQUE_OK"
    by (simp_all add: fresh_def grants_def)
  have "required_blocks 9 (block_size (conf ?ctx)) = 3"
    by (simp add: fresh_def required_blocks_def)
  then have partway: "1 < unat (required_blocks 9 (block_size (conf ?ctx)))
      - unat (block_num (cache ?ctx))"
    by (simp add: fresh_def)
  have facts: "enqueue_outcomes (bque ?ctx) ! 1 = BQUE_ERR_NO_MEM"
    "cache ?ctx = \<lparr>block_num = 0, buff_cap = 0, buff_size = 0, last_block_buff_size = 0\<rparr>"
    "blocks (bque ?ctx) = []"
    "replicate 1 (replicate (unat (block_size (conf ?ctx))) (0 :: rbuf_u8)) = [[0, 0, 0, 0]]"
    by (simp_all add: fresh_def replicate_numeral)
  have "\<exists>ctx'. rbuf_resize ?ctx 9 = Some (RBUF_ERR_NO_MEM, ctx') \<and>
      cache ctx' = \<lparr>block_num = 0, buff_cap = 0, buff_size = 0, last_block_buff_size = 0\<rparr> \<and>
      blocks (bque ctx') = [[0, 0, 0, 0]] \<and>
      unat (block_num (cache ctx')) < length (blocks (bque ctx'))"
    using resize_partial_growth [OF le bs held some granted within refused partway]
    unfolding facts by auto
  with le bs held some granted within refused partway show ?thesis
    by blast
qed

section \<open>The example buffers\<close>

lemma resize_small:
  "rbuf_resize (fresh 4 16 []) 4 = Some (RBUF_OK, small [[0, 0, 0, 0]] 4 4)"
  "rbuf_resize (fresh 4 16 []) 6 = Some (RBUF_OK, small [[0, 0, 0, 0], [0, 0, 0, 0]] 6 2)"
  "rbuf_resize (fresh 4 16 []) 8 = Some (RBUF_OK, small [[0, 0, 0, 0], [0, 0, 0, 0]] 8 4)"
  by (simp_all add: rbuf_resize_def fresh_def small_def resize_enqueue.simps bque_enqueue_def
      resize_sizes_def replicate_numeral)

lemma resize_default_540:
  "rbuf_resize (fresh 512 1024 []) 540 = Some (RBUF_OK, default_540)"
  by (simp add: rbuf_resize_def fresh_def default_540_def resize_enqueue.simps bque_enqueue_def
      resize_sizes_def)

lemma blocks_sized_small:
  "blocks_sized (small [[0, 0, 0, 0], [0, 0, 0, 0]] sz fill)"
  by (simp add: blocks_sized_def small_def)

lemma blocks_sized_default_540: "blocks_sized default_540"
  by (simp add: blocks_sized_def default_540_def)

section \<open>Copying: the claims on single calls\<close>

text \<open>
  Claim C9, as amended. On an empty buffer whose store holds no block (the block size
  nonzero, the cached block count and logical size zero, the store holding exactly the
  blocks the cache counts, that is none), the zero-length read
  \<^verbatim>\<open>rbuf_copy_to(ctx, buff, 0, 0)\<close> passes both range checks and returns \<^verbatim>\<open>RBUF_ERR\<close>, since
  \<^verbatim>\<open>bque_item\<close> is asked for block 0; \<^verbatim>\<open>rbuf_copy_from(ctx, buff, 0, 0)\<close> returns
  \<^verbatim>\<open>RBUF_ERR\<close> the same way. Neither call changes the context or the buffer.
\<close>

theorem zero_length_on_empty:
  assumes "block_size (conf ctx) \<noteq> 0"
    and "block_num (cache ctx) = 0"
    and "buff_size (cache ctx) = 0"
    and "length (blocks (bque ctx)) = unat (block_num (cache ctx))"
  shows "rbuf_copy_to ctx buff 0 0 = Some (RBUF_ERR, ctx, buff, []) \<and>
    rbuf_copy_from ctx buff 0 0 = Some (RBUF_ERR, ctx, [])"
  using assms
  by (simp add: rbuf_copy_to_def rbuf_copy_from_def copy_from_blocks_def bque_item_def)

theorem zero_length_on_empty_witness:
  "block_size (conf (fresh 512 1024 [])) \<noteq> 0 \<and>
   block_num (cache (fresh 512 1024 [])) = 0 \<and>
   buff_size (cache (fresh 512 1024 [])) = 0 \<and>
   length (blocks (bque (fresh 512 1024 []))) = unat (block_num (cache (fresh 512 1024 []))) \<and>
   rbuf_copy_to (fresh 512 1024 []) [7] 0 0 = Some (RBUF_ERR, fresh 512 1024 [], [7], []) \<and>
   rbuf_copy_from (fresh 512 1024 []) [7] 0 0 = Some (RBUF_ERR, fresh 512 1024 [], [])"
proof -
  have bs: "block_size (conf (fresh 512 1024 [])) \<noteq> 0"
    and bn: "block_num (cache (fresh 512 1024 [])) = 0"
    and sz: "buff_size (cache (fresh 512 1024 [])) = 0"
    and held: "length (blocks (bque (fresh 512 1024 [])))
      = unat (block_num (cache (fresh 512 1024 [])))"
    by (simp_all add: fresh_def)
  show ?thesis
    using bs bn sz held zero_length_on_empty [OF bs bn sz held, of "[7]"] by simp
qed

text \<open>
  The claim as stated asks only for a block count and a logical size of zero. A resize of
  a new buffer to 9 bytes whose second append is refused returns \<^verbatim>\<open>RBUF_ERR_NO_MEM\<close> and
  leaves one block in the store, with the block count and the logical size still zero.
  On that buffer \<^verbatim>\<open>bque_item\<close> finds block 0, and both zero-length calls return \<^verbatim>\<open>RBUF_OK\<close>
  after a \<^verbatim>\<open>memcpy\<close> of no bytes (lines 323 to 330 and 229 to 236).
\<close>

theorem zero_length_stray_block_counterexample:
  "rbuf_resize (fresh 4 16 [BQUE_OK, BQUE_ERR_NO_MEM]) 9 =
     Some (RBUF_ERR_NO_MEM,
       \<lparr>bque = \<lparr>blocks = [[0, 0, 0, 0]], enqueue_outcomes = []\<rparr>,
        conf = \<lparr>block_size = 4, size_max = 16\<rparr>,
        cache = \<lparr>block_num = 0, buff_cap = 0, buff_size = 0, last_block_buff_size = 0\<rparr>\<rparr>) \<and>
   rbuf_copy_to
       \<lparr>bque = \<lparr>blocks = [[0, 0, 0, 0]], enqueue_outcomes = []\<rparr>,
        conf = \<lparr>block_size = 4, size_max = 16\<rparr>,
        cache = \<lparr>block_num = 0, buff_cap = 0, buff_size = 0, last_block_buff_size = 0\<rparr>\<rparr>
       [7] 0 0 =
     Some (RBUF_OK,
       \<lparr>bque = \<lparr>blocks = [[0, 0, 0, 0]], enqueue_outcomes = []\<rparr>,
        conf = \<lparr>block_size = 4, size_max = 16\<rparr>,
        cache = \<lparr>block_num = 0, buff_cap = 0, buff_size = 0, last_block_buff_size = 0\<rparr>\<rparr>,
       [7],
       [\<lparr>sc_block_idx = 0, sc_block_offs = 0, sc_buff_offs = 0, sc_size = 0\<rparr>]) \<and>
   rbuf_copy_from
       \<lparr>bque = \<lparr>blocks = [[0, 0, 0, 0]], enqueue_outcomes = []\<rparr>,
        conf = \<lparr>block_size = 4, size_max = 16\<rparr>,
        cache = \<lparr>block_num = 0, buff_cap = 0, buff_size = 0, last_block_buff_size = 0\<rparr>\<rparr>
       [7] 0 0 =
     Some (RBUF_OK,
       \<lparr>bque = \<lparr>blocks = [[0, 0, 0, 0]], enqueue_outcomes = []\<rparr>,
        conf = \<lparr>block_size = 4, size_max = 16\<rparr>,
        cache = \<lparr>block_num = 0, buff_cap = 0, buff_size = 0, last_block_buff_size = 0\<rparr>\<rparr>,
       [\<lparr>sc_block_idx = 0, sc_block_offs = 0, sc_buff_offs = 0, sc_size = 0\<rparr>])"
  by (simp add: rbuf_resize_def fresh_def resize_enqueue.simps bque_enqueue_def
      replicate_numeral rbuf_copy_to_def rbuf_copy_from_def copy_from_blocks_def
      bque_item_def block_read_def block_write_def memcpy_def)

lemma copy_from_blocks_boundary:
  assumes "block_size (conf ctx) = 512"
    and "copy_from_blocks ctx buff 500 40 = Some (RBUF_OK, ctx', calls)"
  shows "calls = boundary_calls"
  using assms
  by (auto simp: copy_from_blocks_def copy_from_loop.simps boundary_calls_def Let_def
      split: if_splits bque_res.splits option.splits)

lemma copy_from_boundary:
  assumes bs: "block_size (conf ctx) = 512"
    and run: "rbuf_copy_from ctx buff 500 40 = Some (RBUF_OK, ctx', calls)"
  shows "calls = boundary_calls"
proof (cases "buff_cap (cache ctx) < 540")
  case True
  with run obtain c where c: "rbuf_resize ctx 540 = Some (RBUF_OK, c)"
    and walk: "copy_from_blocks c buff 500 40 = Some (RBUF_OK, ctx', calls)"
    by (auto simp: rbuf_copy_from_def split: option.splits if_splits)
  from resize_ok_cases [OF c] bs have "block_size (conf c) = 512"
    by (auto simp: resize_sizes_def)
  then show ?thesis
    using walk by (rule copy_from_blocks_boundary)
next
  case False
  with run have "copy_from_blocks ctx buff 500 40 = Some (RBUF_OK, ctx', calls)"
    by (simp add: rbuf_copy_from_def)
  with bs show ?thesis
    by (rule copy_from_blocks_boundary)
qed

lemma copy_to_boundary:
  assumes "block_size (conf ctx) = 512"
    and "rbuf_copy_to ctx buff 500 40 = Some (RBUF_OK, ctx', buff', calls)"
  shows "calls = boundary_calls"
  using assms
  by (auto simp: rbuf_copy_to_def copy_to_loop.simps boundary_calls_def Let_def
      split: if_splits bque_res.splits option.splits)

lemma blocks_sized_nth:
  assumes "blocks_sized ctx" and "n < length (blocks (bque ctx))"
  shows "length (blocks (bque ctx) ! n) = unat (block_size (conf ctx))"
  using assms by (simp add: blocks_sized_def list_all_length)

lemma copy_from_boundary_runs:
  assumes bs: "block_size (conf ctx) = 512"
    and sized: "blocks_sized ctx"
    and two: "2 \<le> length (blocks (bque ctx))"
    and cap: "540 \<le> buff_cap (cache ctx)"
    and src: "40 \<le> length buff"
  shows "rbuf_copy_from ctx buff 500 40 =
    Some (RBUF_OK,
      ctx\<lparr>bque := (bque ctx)\<lparr>blocks := (blocks (bque ctx))
        [0 := take 500 (blocks (bque ctx) ! 0) @ take 12 buff,
         1 := take 28 (drop 12 buff) @ drop 28 (blocks (bque ctx) ! 1)]\<rparr>\<rparr>,
      boundary_calls)"
proof -
  from two have held: "0 < length (blocks (bque ctx))" "1 < length (blocks (bque ctx))"
    by linarith+
  have len: "length (blocks (bque ctx) ! 0) = 512" "length (blocks (bque ctx) ! 1) = 512"
    using blocks_sized_nth [OF sized held(1)] blocks_sized_nth [OF sized held(2)] bs
    by simp_all
  from cap have no_resize: "\<not> buff_cap (cache ctx) < 540"
    by simp
  show ?thesis
    using bs held src len no_resize
    by (simp add: rbuf_copy_from_def copy_from_blocks_def copy_from_loop.simps bque_item_def
        block_write_def memcpy_def boundary_calls_def)
qed

lemma copy_to_boundary_runs:
  assumes bs: "block_size (conf ctx) = 512"
    and sized: "blocks_sized ctx"
    and two: "2 \<le> length (blocks (bque ctx))"
    and size: "540 \<le> buff_size (cache ctx)"
    and dst: "40 \<le> length buff"
  shows "rbuf_copy_to ctx buff 500 40 =
    Some (RBUF_OK, ctx,
      take 12 (drop 500 (blocks (bque ctx) ! 0)) @ take 28 (blocks (bque ctx) ! 1) @ drop 40 buff,
      boundary_calls)"
proof -
  from two have held: "0 < length (blocks (bque ctx))" "1 < length (blocks (bque ctx))"
    by linarith+
  have len: "length (blocks (bque ctx) ! 0) = 512" "length (blocks (bque ctx) ! 1) = 512"
    using blocks_sized_nth [OF sized held(1)] blocks_sized_nth [OF sized held(2)] bs
    by simp_all
  from size have in_range: "\<not> buff_size (cache ctx) < 500" "\<not> buff_size (cache ctx) < 540"
    by (simp_all add: word_less_nat_alt word_le_nat_alt)
  show ?thesis
    using bs held dst len in_range
    by (simp add: rbuf_copy_to_def copy_to_loop.simps bque_item_def
        block_read_def memcpy_def boundary_calls_def)
qed

section \<open>Copying across a block boundary\<close>

text \<open>
  Claim C7. On a buffer with \<open>block_size = 512\<close>, a copy-in or a copy-out of 40 bytes at
  offset 500 that succeeds has issued exactly two \<^verbatim>\<open>memcpy\<close> calls, in this order: 12
  bytes at offset 500 of block 0, then 28 bytes at offset 0 of block 1 (bytes 0 to 11 and
  12 to 39 of the caller's buffer). Both succeed on a store of at least two blocks of 512
  bytes: the copy-in when 540 is within the capacity, leaving the 40 bytes in the two
  blocks in order, and the copy-out when 540 is within the logical size, leaving the 12
  and the 28 bytes in the destination in order.
\<close>

theorem boundary_split:
  assumes bs: "block_size (conf ctx) = 512"
  shows "(\<forall>ctx' calls.
            rbuf_copy_from ctx buff 500 40 = Some (RBUF_OK, ctx', calls) \<longrightarrow>
            calls = boundary_calls) \<and>
         (\<forall>ctx' buff' calls.
            rbuf_copy_to ctx buff 500 40 = Some (RBUF_OK, ctx', buff', calls) \<longrightarrow>
            calls = boundary_calls) \<and>
         (blocks_sized ctx \<and> 2 \<le> length (blocks (bque ctx)) \<and> 40 \<le> length buff \<and>
          540 \<le> buff_cap (cache ctx) \<longrightarrow>
            rbuf_copy_from ctx buff 500 40 =
              Some (RBUF_OK,
                ctx\<lparr>bque := (bque ctx)\<lparr>blocks := (blocks (bque ctx))
                  [0 := take 500 (blocks (bque ctx) ! 0) @ take 12 buff,
                   1 := take 28 (drop 12 buff) @ drop 28 (blocks (bque ctx) ! 1)]\<rparr>\<rparr>,
                boundary_calls)) \<and>
         (blocks_sized ctx \<and> 2 \<le> length (blocks (bque ctx)) \<and> 40 \<le> length buff \<and>
          540 \<le> buff_size (cache ctx) \<longrightarrow>
            rbuf_copy_to ctx buff 500 40 =
              Some (RBUF_OK, ctx,
                take 12 (drop 500 (blocks (bque ctx) ! 0)) @ take 28 (blocks (bque ctx) ! 1)
                  @ drop 40 buff,
                boundary_calls))"
  using copy_from_boundary [OF bs] copy_to_boundary [OF bs]
    copy_from_boundary_runs [OF bs] copy_to_boundary_runs [OF bs]
  by blast

theorem boundary_split_witness:
  "block_size (conf default_540) = 512 \<and>
   blocks_sized default_540 \<and> 2 \<le> length (blocks (bque default_540)) \<and>
   40 \<le> length (replicate 40 (1 :: rbuf_u8)) \<and>
   540 \<le> buff_cap (cache default_540) \<and> 540 \<le> buff_size (cache default_540) \<and>
   rbuf_copy_from default_540 (replicate 40 1) 500 40 =
     Some (RBUF_OK,
       default_540\<lparr>bque := (bque default_540)\<lparr>blocks := (blocks (bque default_540))
         [0 := take 500 (blocks (bque default_540) ! 0) @ take 12 (replicate 40 1),
          1 := take 28 (drop 12 (replicate 40 1)) @ drop 28 (blocks (bque default_540) ! 1)]\<rparr>\<rparr>,
       boundary_calls) \<and>
   rbuf_copy_to default_540 (replicate 40 1) 500 40 =
     Some (RBUF_OK, default_540,
       take 12 (drop 500 (blocks (bque default_540) ! 0))
         @ take 28 (blocks (bque default_540) ! 1) @ drop 40 (replicate 40 1),
       boundary_calls)"
proof -
  have bs: "block_size (conf default_540) = 512"
    and two: "2 \<le> length (blocks (bque default_540))"
    and cap: "540 \<le> buff_cap (cache default_540)"
    and size: "540 \<le> buff_size (cache default_540)"
    by (simp_all add: default_540_def)
  have len: "40 \<le> length (replicate 40 (1 :: rbuf_u8))"
    by simp
  note sized = blocks_sized_default_540
  from boundary_split [OF bs, of "replicate 40 1"] sized two len cap size
  have "rbuf_copy_from default_540 (replicate 40 1) 500 40 =
     Some (RBUF_OK,
       default_540\<lparr>bque := (bque default_540)\<lparr>blocks := (blocks (bque default_540))
         [0 := take 500 (blocks (bque default_540) ! 0) @ take 12 (replicate 40 1),
          1 := take 28 (drop 12 (replicate 40 1)) @ drop 28 (blocks (bque default_540) ! 1)]\<rparr>\<rparr>,
       boundary_calls)"
    and "rbuf_copy_to default_540 (replicate 40 1) 500 40 =
     Some (RBUF_OK, default_540,
       take 12 (drop 500 (blocks (bque default_540) ! 0))
         @ take 28 (blocks (bque default_540) ! 1) @ drop 40 (replicate 40 1),
       boundary_calls)"
    by blast+
  with bs sized two len cap size show ?thesis
    by blast
qed

section \<open>Copy-in within the capacity\<close>

text \<open>The arithmetic of the walk, on natural numbers.\<close>

lemma same_block_fits:
  fixes offs sz b :: nat
  assumes "0 < b" and "offs div b = (offs + sz) div b"
  shows "offs mod b + sz < b"
proof -
  have "offs + sz = b * ((offs + sz) div b) + (offs + sz) mod b"
    by simp
  moreover have "offs = b * (offs div b) + offs mod b"
    by simp
  ultimately have "offs mod b + sz = (offs + sz) mod b"
    using assms(2) by (metis add.assoc add_left_cancel)
  with assms(1) show ?thesis
    by simp
qed

lemma other_block_fills:
  fixes offs sz b :: nat
  assumes "0 < b" and "offs div b \<noteq> (offs + sz) div b"
  shows "b - offs mod b \<le> sz"
proof (rule ccontr)
  assume "\<not> b - offs mod b \<le> sz"
  then have less: "offs mod b + sz < b"
    by simp
  have "offs + sz = b * (offs div b) + (offs mod b + sz)"
    by simp
  then have "(offs + sz) div b = offs div b + (offs mod b + sz) div b"
    using assms(1) by (metis div_mult_self2 less_numeral_extra(3) add.commute)
  with less assms(2) show False
    by simp
qed

text \<open>A \<^verbatim>\<open>memcpy\<close> inside both objects is defined and keeps the length of the target.\<close>

lemma memcpy_defined:
  assumes "d + n \<le> length dst" and "s + n \<le> length src"
  shows "\<exists>r. memcpy dst d src s n = Some r \<and> length r = length dst"
  using assms by (simp add: memcpy_def)

lemma block_write_defined:
  assumes sized: "list_all (\<lambda>b. length b = m) (blocks q)"
    and idx: "unat idx < length (blocks q)"
    and dst: "unat block_offs + unat n \<le> m"
    and src: "unat buff_offs + unat n \<le> length buff"
  shows "\<exists>q'. block_write q idx block_offs buff buff_offs n = Some q' \<and>
    list_all (\<lambda>b. length b = m) (blocks q') \<and> length (blocks q') = length (blocks q)"
proof -
  from sized idx have len: "length (blocks q ! unat idx) = m"
    by (simp add: list_all_length)
  with dst src obtain r where
    r: "memcpy (blocks q ! unat idx) (unat block_offs) buff (unat buff_offs) (unat n) = Some r"
      "length r = m"
    using memcpy_defined [of "unat block_offs" "unat n" "blocks q ! unat idx" "unat buff_offs" buff]
    by auto
  have "list_all (\<lambda>b. length b = m) ((blocks q)[unat idx := r])"
    using sized r(2) set_update_subset_insert [of "blocks q" "unat idx" r]
    by (auto simp: list_all_iff)
  with r(1) show ?thesis
    by (simp add: block_write_def)
qed

text \<open>
  The loop of the copy-in never leaves the blocks or the caller's buffer, provided the
  bytes still to copy lie inside that buffer.
\<close>

lemma copy_from_loop_defined:
  assumes "list_all (\<lambda>b. length b = unat bs) (blocks q)"
    and "unat buff_offs + unat rest_size \<le> length buff"
    and "unat buff_offs + unat rest_size < 2 ^ 32"
  shows "\<exists>res q' calls'.
    copy_from_loop i bound bs buff buff_offs rest_size q calls = Some (res, q', calls')"
  using assms
proof (induction i bound bs buff buff_offs rest_size q calls rule: copy_from_loop.induct)
  case (1 i bound bs buff buff_offs rest_size q calls)
  show ?case
  proof (cases "i < bound \<and> bque_item q i = BQUE_OK")
    case False
    then show ?thesis
      by (subst copy_from_loop.simps) (auto split: bque_res.splits)
  next
    case True
    define curt_size where "curt_size = (if rest_size > bs then bs else rest_size)"
    have curt: "unat curt_size \<le> unat bs" "unat curt_size \<le> unat rest_size"
      by (auto simp: curt_size_def word_less_nat_alt)
    from True have idx: "unat i < length (blocks q)"
      by (simp add: bque_item_def split: if_splits)
    from curt "1.prems" obtain q' where
      q': "block_write q i 0 buff buff_offs curt_size = Some q'"
        "list_all (\<lambda>b. length b = unat bs) (blocks q')"
      using block_write_defined [OF "1.prems"(1) idx, of 0 curt_size buff_offs buff]
      by auto
    have offs: "unat (buff_offs + curt_size) = unat buff_offs + unat curt_size"
      using curt(2) "1.prems"(3) by (simp add: unat_add_lem [THEN iffD1])
    have rest: "unat (rest_size - curt_size) = unat rest_size - unat curt_size"
      using curt(2) by (simp add: unat_sub word_le_nat_alt)
    have "\<exists>res q'' calls'.
      copy_from_loop (i + 1) bound bs buff (buff_offs + curt_size) (rest_size - curt_size) q'
        (calls @ [\<lparr>sc_block_idx = i, sc_block_offs = 0,
                   sc_buff_offs = buff_offs, sc_size = curt_size\<rparr>]) = Some (res, q'', calls')"
      using True q' "1.prems" curt offs rest
      by (intro "1.IH" [of curt_size q']) (simp_all add: curt_size_def)
    then show ?thesis
      using True q'(1)
      by (subst copy_from_loop.simps) (simp add: curt_size_def Let_def)
  qed
qed

lemma copy_from_blocks_defined:
  assumes sized: "blocks_sized ctx"
    and no_wrap: "unat offs + unat sz < 2 ^ 32"
    and src: "unat sz \<le> length buff"
  shows "\<exists>res q' calls. copy_from_blocks ctx buff offs sz = Some (res, ctx\<lparr>bque := q'\<rparr>, calls)"
proof -
  define bs where "bs = block_size (conf ctx)"
  define starting_block_idx where "starting_block_idx = offs div bs"
  define ending_block_idx where "ending_block_idx = (offs + sz) div bs"
  define block_offs where "block_offs = offs mod bs"
  from sized have bs: "bs \<noteq> 0"
    and lens: "list_all (\<lambda>b. length b = unat bs) (blocks (bque ctx))"
    by (simp_all add: blocks_sized_def bs_def)
  then have pos: "0 < unat bs"
    by (simp add: unat_gt_0)
  have sum: "unat (offs + sz) = unat offs + unat sz"
    using no_wrap by (simp add: unat_add_lem [THEN iffD1])
  have start: "unat starting_block_idx = unat offs div unat bs"
    and ending: "unat ending_block_idx = (unat offs + unat sz) div unat bs"
    and offs: "unat block_offs = unat offs mod unat bs"
    by (simp_all add: starting_block_idx_def ending_block_idx_def block_offs_def
        unat_div unat_mod sum)
  have same: "ctx\<lparr>bque := bque ctx\<rparr> = ctx"
    by simp
  show ?thesis
  proof (cases "bque_item (bque ctx) starting_block_idx = BQUE_OK")
    case False
    then have "copy_from_blocks ctx buff offs sz = Some (RBUF_ERR, ctx, [])"
      using bs
      by (auto simp: copy_from_blocks_def Let_def bs_def starting_block_idx_def
          split: bque_res.splits)
    with same show ?thesis
      by metis
  next
    case True
    then have idx: "unat starting_block_idx < length (blocks (bque ctx))"
      by (simp add: bque_item_def split: if_splits)
    show ?thesis
    proof (cases "starting_block_idx = ending_block_idx")
      case eq: True
      then have "unat offs div unat bs = (unat offs + unat sz) div unat bs"
        using start ending by simp
      from same_block_fits [OF pos this] have "unat block_offs + unat sz \<le> unat bs"
        by (simp add: offs)
      with src obtain q' where
        "block_write (bque ctx) starting_block_idx block_offs buff 0 sz = Some q'"
        using block_write_defined [OF lens idx, of block_offs sz 0 buff] by auto
      with True eq bs have "copy_from_blocks ctx buff offs sz =
          Some (RBUF_OK, ctx\<lparr>bque := q'\<rparr>,
            [\<lparr>sc_block_idx = starting_block_idx, sc_block_offs = block_offs,
              sc_buff_offs = 0, sc_size = sz\<rparr>])"
        by (simp add: copy_from_blocks_def Let_def bs_def starting_block_idx_def
            ending_block_idx_def block_offs_def)
      then show ?thesis
        by blast
    next
      case neq: False
      define curt_size where "curt_size = bs - block_offs"
      have inside: "unat block_offs < unat bs"
        using pos by (simp add: offs)
      then have curt: "unat curt_size = unat bs - unat block_offs"
        by (simp add: curt_size_def unat_sub word_le_nat_alt)
      from neq have "unat offs div unat bs \<noteq> (unat offs + unat sz) div unat bs"
        using start ending by (metis word_unat_eq_iff)
      from other_block_fills [OF pos this] have fills: "unat curt_size \<le> unat sz"
        by (simp add: curt offs)
      with src curt inside obtain q1 where
        q1: "block_write (bque ctx) starting_block_idx block_offs buff 0 curt_size = Some q1"
          "list_all (\<lambda>b. length b = unat bs) (blocks q1)"
        using block_write_defined [OF lens idx, of block_offs curt_size 0 buff] by auto
      have rest: "unat curt_size + unat (sz - curt_size) = unat sz"
        using fills by (simp add: unat_sub word_le_nat_alt)
      have "unat sz < 2 ^ 32"
        using no_wrap by simp
      with rest src obtain res q' calls where
        "copy_from_loop (starting_block_idx + 1) (ending_block_idx + 1) bs buff curt_size
           (sz - curt_size) q1
           [\<lparr>sc_block_idx = starting_block_idx, sc_block_offs = block_offs,
             sc_buff_offs = 0, sc_size = curt_size\<rparr>] = Some (res, q', calls)"
        using copy_from_loop_defined [OF q1(2), of curt_size "sz - curt_size" buff]
        by (metis (no_types, lifting))
      with True neq bs q1(1) have
        "copy_from_blocks ctx buff offs sz = Some (res, ctx\<lparr>bque := q'\<rparr>, calls)"
        by (simp add: copy_from_blocks_def Let_def bs_def starting_block_idx_def
            ending_block_idx_def block_offs_def curt_size_def)
      then show ?thesis
        by blast
    qed
  qed
qed

text \<open>
  A read that starts beyond the logical size fails with \<^verbatim>\<open>RBUF_ERR_BAD_OFFS\<close>; a read that
  ends beyond it fails as well, unless the 32-bit sum wraps. Neither changes anything.
\<close>

lemma copy_to_bad_offs:
  assumes "offs > buff_size (cache ctx)"
  shows "rbuf_copy_to ctx buff offs sz = Some (RBUF_ERR_BAD_OFFS, ctx, buff, [])"
  using assms by (simp add: rbuf_copy_to_def)

lemma copy_to_beyond_size:
  assumes "unat (buff_size (cache ctx)) < unat offs + unat sz"
    and "unat offs + unat sz < 2 ^ 32"
  shows "rbuf_copy_to ctx buff offs sz =
    Some (if offs > buff_size (cache ctx) then RBUF_ERR_BAD_OFFS else RBUF_ERR_BAD_SIZE,
          ctx, buff, [])"
proof -
  have "unat (offs + sz) = unat offs + unat sz"
    using assms(2) by (simp add: unat_add_lem [THEN iffD1])
  with assms(1) have "offs + sz > buff_size (cache ctx)"
    by (simp add: word_less_nat_alt)
  then show ?thesis
    by (simp add: rbuf_copy_to_def)
qed

text \<open>The walk of the copy-in assigns to nothing but the blocks of the store.\<close>

lemma copy_from_blocks_frame:
  assumes "copy_from_blocks ctx buff offs sz = Some (res, ctx', calls)"
  shows "cache ctx' = cache ctx \<and> conf ctx' = conf ctx"
  using assms
  by (auto simp: copy_from_blocks_def Let_def
      split: if_splits bque_res.splits option.splits prod.splits)

text \<open>
  The copy-in within the capacity. Take any buffer and any call of \<^verbatim>\<open>rbuf_copy_from\<close> with
  \<open>offs + sz\<close> within the capacity. Whatever the call returns, the cached fields
  \<open>buff_size\<close>, \<open>block_num\<close>, \<open>buff_cap\<close> and \<open>last_block_buff_size\<close> of the context are
  those of before. So the logical size is not extended: on the context returned, every
  read inside the capacity that ends beyond the logical size fails with
  \<^verbatim>\<open>RBUF_ERR_BAD_OFFS\<close> or \<^verbatim>\<open>RBUF_ERR_BAD_SIZE\<close> and leaves the destination as it was. And
  the call does return when the blocks have the configured size and the caller's buffer
  holds the \<open>sz\<close> bytes. Reads whose end lies at or beyond \<open>2 ^ 32\<close> are another matter:
  their sum \<open>offs + sz\<close> wraps.
\<close>

theorem copy_from_within_capacity:
  assumes fits: "unat offs + unat sz \<le> unat (buff_cap (cache ctx))"
  shows "(\<forall>res ctx' calls.
            rbuf_copy_from ctx buff offs sz = Some (res, ctx', calls) \<longrightarrow>
            cache ctx' = cache ctx \<and>
            (\<forall>o' l dest.
               unat (buff_size (cache ctx)) < unat o' + unat l \<and>
               unat o' + unat l \<le> unat (buff_cap (cache ctx)) \<longrightarrow>
               (\<exists>e. rbuf_copy_to ctx' dest o' l = Some (e, ctx', dest, []) \<and>
                    (e = RBUF_ERR_BAD_OFFS \<or> e = RBUF_ERR_BAD_SIZE)))) \<and>
         (blocks_sized ctx \<and> unat sz \<le> length buff \<longrightarrow>
            (\<exists>res ctx' calls. rbuf_copy_from ctx buff offs sz = Some (res, ctx', calls)))"
proof -
  have cap: "unat (buff_cap (cache ctx)) < 2 ^ 32"
    using unsigned_less [of "buff_cap (cache ctx)"] by simp
  with fits have no_wrap: "unat offs + unat sz < 2 ^ 32"
    by linarith
  then have "unat (offs + sz) = unat offs + unat sz"
    by (simp add: unat_add_lem [THEN iffD1])
  with fits have "\<not> offs + sz > buff_cap (cache ctx)"
    by (simp add: word_less_nat_alt)
  then have walk: "rbuf_copy_from ctx buff offs sz = copy_from_blocks ctx buff offs sz"
    by (simp add: rbuf_copy_from_def)
  have returns: "\<exists>res ctx' calls. rbuf_copy_from ctx buff offs sz = Some (res, ctx', calls)"
    if "blocks_sized ctx" and "unat sz \<le> length buff"
    using copy_from_blocks_defined [OF that(1) no_wrap that(2)] walk by auto
  have frame: "cache ctx' = cache ctx"
    if "rbuf_copy_from ctx buff offs sz = Some (res, ctx', calls)" for res ctx' calls
    using that walk copy_from_blocks_frame by auto
  have beyond: "\<exists>e. rbuf_copy_to ctx' dest o' l = Some (e, ctx', dest, []) \<and>
            (e = RBUF_ERR_BAD_OFFS \<or> e = RBUF_ERR_BAD_SIZE)"
    if "rbuf_copy_from ctx buff offs sz = Some (res, ctx', calls)"
      and "unat (buff_size (cache ctx)) < unat o' + unat l"
      and "unat o' + unat l \<le> unat (buff_cap (cache ctx))" for res ctx' calls o' l dest
  proof -
    from that cap frame [OF that(1)] have "unat (buff_size (cache ctx')) < unat o' + unat l"
      and "unat o' + unat l < 2 ^ 32"
      by simp_all
    from copy_to_beyond_size [OF this] show ?thesis
      by simp
  qed
  from returns frame beyond show ?thesis
    by blast
qed

theorem copy_from_within_capacity_witness:
  "blocks_sized (small [[0, 0, 0, 0], [0, 0, 0, 0]] 6 2) \<and>
   unat (6 :: rbuf_u32) + unat (1 :: rbuf_u32)
     \<le> unat (buff_cap (cache (small [[0, 0, 0, 0], [0, 0, 0, 0]] 6 2))) \<and>
   unat (1 :: rbuf_u32) \<le> length [9 :: rbuf_u8] \<and>
   rbuf_copy_from (small [[0, 0, 0, 0], [0, 0, 0, 0]] 6 2) [9] 6 1 =
     Some (RBUF_OK, small [[0, 0, 0, 0], [0, 0, 9, 0]] 6 2,
       [\<lparr>sc_block_idx = 1, sc_block_offs = 2, sc_buff_offs = 0, sc_size = 1\<rparr>]) \<and>
   cache (small [[0, 0, 0, 0], [0, 0, 9, 0]] 6 2)
     = cache (small [[0, 0, 0, 0], [0, 0, 0, 0]] 6 2) \<and>
   rbuf_copy_to (small [[0, 0, 0, 0], [0, 0, 9, 0]] 6 2) [0] 6 1 =
     Some (RBUF_ERR_BAD_SIZE, small [[0, 0, 0, 0], [0, 0, 9, 0]] 6 2, [0], [])"
proof -
  let ?ctx = "small [[0, 0, 0, 0], [0, 0, 0, 0]] 6 2"
  have sized: "blocks_sized ?ctx"
    by (rule blocks_sized_small)
  have fits: "unat (6 :: rbuf_u32) + unat (1 :: rbuf_u32) \<le> unat (buff_cap (cache ?ctx))"
    by (simp add: small_def)
  have src: "unat (1 :: rbuf_u32) \<le> length [9 :: rbuf_u8]"
    by simp
  have run: "rbuf_copy_from ?ctx [9] 6 1 =
     Some (RBUF_OK, small [[0, 0, 0, 0], [0, 0, 9, 0]] 6 2,
       [\<lparr>sc_block_idx = 1, sc_block_offs = 2, sc_buff_offs = 0, sc_size = 1\<rparr>])"
    by (simp add: rbuf_copy_from_def copy_from_blocks_def small_def bque_item_def
        block_write_def memcpy_def)
  note claim = copy_from_within_capacity [OF fits, of "[9]"]
  from claim sized src obtain res ctx' calls where
    ret: "rbuf_copy_from ?ctx [9] 6 1 = Some (res, ctx', calls)"
    by blast
  from claim ret have frame: "cache ctx' = cache ?ctx"
    and unreadable: "\<And>o' l dest.
       unat (buff_size (cache ?ctx)) < unat o' + unat l \<and>
       unat o' + unat l \<le> unat (buff_cap (cache ?ctx)) \<Longrightarrow>
       \<exists>e. rbuf_copy_to ctx' dest o' l = Some (e, ctx', dest, []) \<and>
            (e = RBUF_ERR_BAD_OFFS \<or> e = RBUF_ERR_BAD_SIZE)"
    by blast+
  from ret run have ctx': "ctx' = small [[0, 0, 0, 0], [0, 0, 9, 0]] 6 2"
    by simp
  have "unat (buff_size (cache ?ctx)) < unat (6 :: rbuf_u32) + unat (1 :: rbuf_u32) \<and>
      unat (6 :: rbuf_u32) + unat (1 :: rbuf_u32) \<le> unat (buff_cap (cache ?ctx))"
    by (simp add: small_def)
  from unreadable [OF this, of "[0]"] obtain e where
    e: "rbuf_copy_to ctx' [0] 6 1 = Some (e, ctx', [0], [])"
    by blast
  moreover have "rbuf_copy_to ctx' [0] 6 1 = Some (RBUF_ERR_BAD_SIZE, ctx', [0], [])"
    by (simp add: ctx' rbuf_copy_to_def small_def)
  ultimately show ?thesis
    using sized fits src run frame ctx' by simp
qed

section \<open>Where the code leaves the claims\<close>

text \<open>
  Claim C2 (round trip), evaluated where the range ends at the end of the last block.
  A new buffer with blocks of 4 bytes is resized to 4 and holds one block. Copying the 4
  bytes 1, 2, 3, 4 in at offset 0 needs no resize; the starting block is 0 and the ending
  block is \<open>4 div 4 = 1\<close>, so after the 4 bytes are in block 0 the loop asks \<^verbatim>\<open>bque_item\<close> for
  block 1, which the store does not hold: \<^verbatim>\<open>rbuf_copy_from\<close> returns \<^verbatim>\<open>RBUF_ERR\<close>. Reading
  the 4 bytes back passes both range checks, fills the destination and returns
  \<^verbatim>\<open>RBUF_ERR\<close> the same way.
\<close>

theorem round_trip_to_block_end:
  "rbuf_resize (fresh 4 16 []) 4 = Some (RBUF_OK, small [[0, 0, 0, 0]] 4 4) \<and>
   rbuf_copy_from (small [[0, 0, 0, 0]] 4 4) [1, 2, 3, 4] 0 4 =
     Some (RBUF_ERR, small [[1, 2, 3, 4]] 4 4,
       [\<lparr>sc_block_idx = 0, sc_block_offs = 0, sc_buff_offs = 0, sc_size = 4\<rparr>]) \<and>
   rbuf_copy_to (small [[1, 2, 3, 4]] 4 4) [0, 0, 0, 0] 0 4 =
     Some (RBUF_ERR, small [[1, 2, 3, 4]] 4 4, [1, 2, 3, 4],
       [\<lparr>sc_block_idx = 0, sc_block_offs = 0, sc_buff_offs = 0, sc_size = 4\<rparr>])"
  by (simp add: resize_small rbuf_copy_from_def copy_from_blocks_def copy_from_loop.simps
      rbuf_copy_to_def copy_to_loop.simps small_def bque_item_def block_write_def
      block_read_def memcpy_def)

text \<open>
  Claim C3 (a read beyond the logical size fails), evaluated where the 32-bit sum
  \<open>offs + sz\<close> wraps. The buffer holds two blocks of 4 bytes and has the logical size 8.
  A read of \<open>0xFFFFFFFC\<close> bytes at offset 4 has its offset within the logical size and its
  end, \<open>2 ^ 32\<close>, beyond it; \<^verbatim>\<open>ending_byte_no\<close> is 0, the check of line 317 passes, and the
  call copies 4 bytes and returns \<^verbatim>\<open>RBUF_OK\<close>. A read of \<open>0xFFFFFFFF\<close> bytes at offset 1 passes
  the check likewise and then runs \<^verbatim>\<open>memcpy\<close> over \<open>0xFFFFFFFF\<close> bytes from offset 1 of the
  4-byte block 0, which is undefined. The destinations hold the bytes asked for.
\<close>

theorem copy_to_wrapped_sum:
  "(4 :: rbuf_u32) \<le> buff_size (cache (small [[0, 0, 0, 0], [0, 0, 0, 0]] 8 4)) \<and>
   unat (buff_size (cache (small [[0, 0, 0, 0], [0, 0, 0, 0]] 8 4)))
     < unat (4 :: rbuf_u32) + unat (0xFFFFFFFC :: rbuf_u32) \<and>
   rbuf_copy_to (small [[0, 0, 0, 0], [0, 0, 0, 0]] 8 4) (replicate 4294967292 7) 4 0xFFFFFFFC =
     Some (RBUF_OK, small [[0, 0, 0, 0], [0, 0, 0, 0]] 8 4,
       [0, 0, 0, 0] @ replicate 4294967288 7,
       [\<lparr>sc_block_idx = 1, sc_block_offs = 0, sc_buff_offs = 0, sc_size = 4\<rparr>]) \<and>
   rbuf_copy_to (small [[0, 0, 0, 0], [0, 0, 0, 0]] 8 4) (replicate 4294967295 7) 1 0xFFFFFFFF =
     None"
  by (simp add: rbuf_copy_to_def copy_to_loop.simps small_def bque_item_def block_read_def
      memcpy_def)

text \<open>
  Claim C8 (a copy-in within the capacity does not extend the logical size, so the bytes
  it puts beyond the logical size remain unreadable), evaluated where the sum \<open>offs + sz\<close>
  of the read wraps. The buffer holds two blocks of 4 bytes, so its capacity is 8, and has
  the logical size 6. Copying the byte 9 in at offset 6 lies within the capacity: no
  resize takes place, the byte lands at offset 2 of block 1 and the cache is as before,
  the logical size still 6. A read of 1 byte at offset 6 fails with
  \<^verbatim>\<open>RBUF_ERR_BAD_SIZE\<close>. A read of \<open>0xFFFFFFFA\<close> bytes at offset 6 has \<^verbatim>\<open>ending_byte_no = 0\<close>,
  passes the check of line 317, copies the two bytes of the spare capacity, 9 among them,
  to the destination and returns \<^verbatim>\<open>RBUF_OK\<close>. The destination holds the bytes asked for.
\<close>

theorem spare_capacity_read:
  "unat (6 :: rbuf_u32) + unat (1 :: rbuf_u32)
     \<le> unat (buff_cap (cache (small [[0, 0, 0, 0], [0, 0, 0, 0]] 6 2))) \<and>
   rbuf_copy_from (small [[0, 0, 0, 0], [0, 0, 0, 0]] 6 2) [9] 6 1 =
     Some (RBUF_OK, small [[0, 0, 0, 0], [0, 0, 9, 0]] 6 2,
       [\<lparr>sc_block_idx = 1, sc_block_offs = 2, sc_buff_offs = 0, sc_size = 1\<rparr>]) \<and>
   cache (small [[0, 0, 0, 0], [0, 0, 9, 0]] 6 2)
     = cache (small [[0, 0, 0, 0], [0, 0, 0, 0]] 6 2) \<and>
   buff_size (cache (small [[0, 0, 0, 0], [0, 0, 9, 0]] 6 2)) = 6 \<and>
   rbuf_copy_to (small [[0, 0, 0, 0], [0, 0, 9, 0]] 6 2) [0] 6 1 =
     Some (RBUF_ERR_BAD_SIZE, small [[0, 0, 0, 0], [0, 0, 9, 0]] 6 2, [0], []) \<and>
   rbuf_copy_to (small [[0, 0, 0, 0], [0, 0, 9, 0]] 6 2) (replicate 4294967290 7) 6 0xFFFFFFFA =
     Some (RBUF_OK, small [[0, 0, 0, 0], [0, 0, 9, 0]] 6 2,
       [9, 0] @ replicate 4294967288 7,
       [\<lparr>sc_block_idx = 1, sc_block_offs = 2, sc_buff_offs = 0, sc_size = 2\<rparr>])"
  by (simp add: rbuf_copy_from_def copy_from_blocks_def rbuf_copy_to_def copy_to_loop.simps
      small_def bque_item_def block_write_def block_read_def memcpy_def)

text \<open>
  Where the sum does not wrap, \<^verbatim>\<open>rbuf_copy_from\<close> resizes to \<open>offs + sz\<close> exactly when that
  exceeds the capacity, hands a failure of the resize back as it is, with the context the
  resize left and no \<^verbatim>\<open>memcpy\<close> issued, and otherwise walks the blocks.
\<close>

lemma copy_from_implicit_resize:
  assumes "unat offs + unat sz < 2 ^ 32"
  shows "rbuf_copy_from ctx buff offs sz =
    (if unat (buff_cap (cache ctx)) < unat offs + unat sz then
       (case rbuf_resize ctx (offs + sz) of
          None \<Rightarrow> None
        | Some (res, ctx') \<Rightarrow>
            if res \<noteq> RBUF_OK then Some (res, ctx', [])
            else copy_from_blocks ctx' buff offs sz)
     else copy_from_blocks ctx buff offs sz)"
proof -
  have "unat (offs + sz) = unat offs + unat sz"
    using assms by (simp add: unat_add_lem [THEN iffD1])
  then have "offs + sz > buff_cap (cache ctx)
      \<longleftrightarrow> unat (buff_cap (cache ctx)) < unat offs + unat sz"
    by (simp add: word_less_nat_alt)
  then show ?thesis
    by (simp add: rbuf_copy_from_def)
qed

text \<open>
  Claim C6 (the implicit resize), evaluated where the 32-bit sum \<open>offs + sz\<close> wraps. On
  the same buffer, of capacity 8, a copy-in of \<open>0xFFFFFFFC\<close> bytes at offset 4 ends at
  \<open>2 ^ 32\<close>, beyond the capacity; \<^verbatim>\<open>new_size\<close> is 0, so \<^verbatim>\<open>rbuf_resize\<close> is not called, 4
  bytes are copied into block 1 and the call returns \<^verbatim>\<open>RBUF_OK\<close> with the cache as before.
  A copy-in of \<open>0xFFFFFFFF\<close> bytes at offset 1 skips the resize likewise and runs
  \<^verbatim>\<open>memcpy\<close> over \<open>0xFFFFFFFF\<close> bytes into the 4-byte block 0, which is undefined.
\<close>

theorem copy_from_wrapped_sum:
  "unat (buff_cap (cache (small [[0, 0, 0, 0], [0, 0, 0, 0]] 8 4)))
     < unat (4 :: rbuf_u32) + unat (0xFFFFFFFC :: rbuf_u32) \<and>
   rbuf_copy_from (small [[0, 0, 0, 0], [0, 0, 0, 0]] 8 4) (replicate 4294967292 7) 4 0xFFFFFFFC =
     Some (RBUF_OK, small [[0, 0, 0, 0], replicate 4 7] 8 4,
       [\<lparr>sc_block_idx = 1, sc_block_offs = 0, sc_buff_offs = 0, sc_size = 4\<rparr>]) \<and>
   rbuf_copy_from (small [[0, 0, 0, 0], [0, 0, 0, 0]] 8 4) (replicate 4294967295 7) 1 0xFFFFFFFF =
     None"
  by (simp add: rbuf_copy_from_def copy_from_blocks_def copy_from_loop.simps small_def
      bque_item_def block_write_def memcpy_def)

section \<open>What the copies move\<close>

text \<open>Positions inside one block, as a range of logical positions.\<close>

lemma in_block_iff:
  fixes m a k p j :: nat
  assumes "0 < m" and "a + k \<le> m"
  shows "(p div m = j \<and> a \<le> p mod m \<and> p mod m < a + k)
     \<longleftrightarrow> (j * m + a \<le> p \<and> p < j * m + a + k)"
proof
  assume l: "p div m = j \<and> a \<le> p mod m \<and> p mod m < a + k"
  have "p = (p div m) * m + p mod m"
    by simp
  with l show "j * m + a \<le> p \<and> p < j * m + a + k"
    by (metis add.assoc add_le_cancel_left nat_add_left_cancel_less)
next
  assume r: "j * m + a \<le> p \<and> p < j * m + a + k"
  with assms have "m * j \<le> p" and "p < m * Suc j"
    by (simp_all add: mult.commute)
  then have d: "p div m = j"
    by (rule div_nat_eqI)
  have "p = (p div m) * m + p mod m"
    by simp
  with d have "p = j * m + p mod m"
    by simp
  with r d show "p div m = j \<and> a \<le> p mod m \<and> p mod m < a + k"
    by linarith
qed

lemma memcpy_nth:
  assumes "memcpy dst d src s n = Some r"
  shows "length r = length dst"
    and "k < length dst \<Longrightarrow>
      r ! k = (if d \<le> k \<and> k < d + n then src ! (s + (k - d)) else dst ! k)"
proof -
  define mid where "mid = take n (drop s src)"
  from assms have fits: "d + n \<le> length dst" "s + n \<le> length src"
    and r: "r = take d dst @ mid @ drop (d + n) dst"
    by (auto simp: memcpy_def mid_def split: if_splits)
  have mid: "length mid = n"
    using fits by (simp add: mid_def)
  from fits show "length r = length dst"
    by (simp add: r mid)
  assume k: "k < length dst"
  consider (before) "k < d" | (inside) "d \<le> k" "k < d + n" | (after) "d + n \<le> k"
    by linarith
  then show "r ! k = (if d \<le> k \<and> k < d + n then src ! (s + (k - d)) else dst ! k)"
  proof cases
    case before
    with k fits show ?thesis
      by (simp add: r nth_append)
  next
    case inside
    then have rel: "k - d < n" "\<not> k < d"
      by linarith+
    with k fits have "r ! k = mid ! (k - d)"
      by (simp add: r nth_append mid)
    also have "\<dots> = src ! (s + (k - d))"
      using rel fits by (simp add: mid_def)
    finally show ?thesis
      using inside by simp
  next
    case after
    then have rel: "\<not> k < d" "\<not> k - d < n"
      by linarith+
    with k fits have "r ! k = drop (d + n) dst ! (k - d - n)"
      by (simp add: r nth_append mid)
    also have "\<dots> = dst ! k"
      using after k by simp
    finally show ?thesis
      using after by simp
  qed
qed

lemma block_write_effect:
  assumes sized: "list_all (\<lambda>b. length b = m) (blocks q)"
    and m: "0 < m"
    and idx: "unat idx < length (blocks q)"
    and dst: "unat block_offs + unat n \<le> m"
    and src: "unat buff_offs + unat n \<le> length buff"
  shows "\<exists>q'. block_write q idx block_offs buff buff_offs n = Some q' \<and>
    list_all (\<lambda>b. length b = m) (blocks q') \<and> length (blocks q') = length (blocks q) \<and>
    (\<forall>p < length (blocks q) * m.
       byte_at q' m p =
         (if unat idx * m + unat block_offs \<le> p \<and> p < unat idx * m + unat block_offs + unat n
          then buff ! (unat buff_offs + (p - (unat idx * m + unat block_offs)))
          else byte_at q m p))"
proof -
  from sized idx have len: "length (blocks q ! unat idx) = m"
    by (simp add: list_all_length)
  with dst src obtain r where
    r: "memcpy (blocks q ! unat idx) (unat block_offs) buff (unat buff_offs) (unat n) = Some r"
    using memcpy_defined [of "unat block_offs" "unat n" "blocks q ! unat idx" "unat buff_offs" buff]
    by auto
  note r_len = memcpy_nth(1) [OF r] and r_nth = memcpy_nth(2) [OF r]
  define q' where "q' = q\<lparr>blocks := (blocks q)[unat idx := r]\<rparr>"
  have run: "block_write q idx block_offs buff buff_offs n = Some q'"
    using r by (simp add: block_write_def q'_def)
  have sized': "list_all (\<lambda>b. length b = m) (blocks q')"
    using sized r_len len set_update_subset_insert [of "blocks q" "unat idx" r]
    by (auto simp: list_all_iff q'_def)
  have same_len: "length (blocks q') = length (blocks q)"
    by (simp add: q'_def)
  have "byte_at q' m p =
         (if unat idx * m + unat block_offs \<le> p \<and> p < unat idx * m + unat block_offs + unat n
          then buff ! (unat buff_offs + (p - (unat idx * m + unat block_offs)))
          else byte_at q m p)"
    if p: "p < length (blocks q) * m" for p
  proof -
    from p m have j: "p div m < length (blocks q)"
      by (simp add: less_mult_imp_div_less)
    have t: "p mod m < m"
      using m by simp
    note range = in_block_iff [OF m dst, of p "unat idx"]
    show ?thesis
    proof (cases "p div m = unat idx")
      case True
      have "p = (p div m) * m + p mod m"
        by simp
      with True have pm: "p mod m = p - unat idx * m" "unat idx * m \<le> p"
        by simp_all
      have "byte_at q' m p = r ! (p mod m)"
        using True idx by (simp add: byte_at_def q'_def)
      also have "\<dots> = (if unat block_offs \<le> p mod m \<and> p mod m < unat block_offs + unat n
          then buff ! (unat buff_offs + (p mod m - unat block_offs))
          else blocks q ! unat idx ! (p mod m))"
        using t len by (simp add: r_nth)
      finally show ?thesis
        using True range pm by (auto simp: byte_at_def)
    next
      case False
      with range have "\<not> (unat idx * m + unat block_offs \<le> p
          \<and> p < unat idx * m + unat block_offs + unat n)"
        by blast
      with False show ?thesis
        by (auto simp: byte_at_def q'_def)
    qed
  qed
  with run sized' same_len show ?thesis
    by blast
qed

text \<open>
  The loop of the copy-in, entered at block \<open>i\<close> on the way to the end position \<open>E\<close> of a
  copy that began at position \<open>O'\<close>: it puts the bytes of the caller's buffer at the
  positions from the start of block \<open>i\<close> up to \<open>E\<close>, changes no other byte, and returns
  \<^verbatim>\<open>RBUF_OK\<close> exactly when the store holds the block of position \<open>E\<close>.
\<close>

lemma copy_from_loop_effect:
  assumes "list_all (\<lambda>b. length b = unat bs) (blocks q)"
    and "0 < unat bs"
    and "E \<le> length (blocks q) * unat bs"
    and "E < 2 ^ 32"
    and "unat bound = E div unat bs + 1"
    and "unat i \<le> E div unat bs + 1"
    and "unat i \<le> length (blocks q)"
    and "O' \<le> unat i * unat bs"
    and "O' \<le> E"
    and "unat buff_offs = min (unat i * unat bs) E - O'"
    and "unat rest_size = E - unat i * unat bs"
    and "E - O' \<le> length buff"
  shows "\<exists>res q' calls'.
    copy_from_loop i bound bs buff buff_offs rest_size q calls = Some (res, q', calls') \<and>
    list_all (\<lambda>b. length b = unat bs) (blocks q') \<and>
    length (blocks q') = length (blocks q) \<and>
    (\<forall>p < length (blocks q) * unat bs.
       byte_at q' (unat bs) p =
         (if unat i * unat bs \<le> p \<and> p < E then buff ! (p - O') else byte_at q (unat bs) p)) \<and>
    (res = (if E div unat bs < length (blocks q) then RBUF_OK else RBUF_ERR))"
  using assms
proof (induction i bound bs buff buff_offs rest_size q calls rule: copy_from_loop.induct)
  case (1 i bound bs buff buff_offs rest_size q calls)
  define m where "m = unat bs"
  define n where "n = length (blocks q)"
  define P where "P = unat i * m"
  note prems = "1.prems" [folded m_def n_def, folded P_def]
  have m: "0 < m" and E: "E \<le> n * m" "E < 2 ^ 32" "O' \<le> E" "E - O' \<le> length buff"
    and bound: "unat bound = E div m + 1"
    and i: "unat i \<le> E div m + 1" "unat i \<le> n" "O' \<le> P"
    and offs: "unat buff_offs = min P E - O'" and rest: "unat rest_size = E - P"
    and sized: "list_all (\<lambda>b. length b = m) (blocks q)"
    using prems by simp_all
  have E_split: "E = (E div m) * m + E mod m" and E_mod: "E mod m < m"
    using m by simp_all
  then have E_less: "E < (E div m + 1) * m"
    by (metis add.commute add_less_cancel_left mult.commute mult_Suc_right plus_1_eq_Suc
        add_Suc_right Suc_eq_plus1 mult_Suc)
  show ?case
  proof (cases "i < bound")
    case False
    then have "unat i = E div m + 1"
      using i(1) bound by (simp add: word_less_nat_alt)
    then have "E div m < n" and "E < P"
      using i(2) E_less by (simp_all add: P_def)
    with False sized show ?thesis
      by (subst copy_from_loop.simps)
        (auto simp: m_def [symmetric] n_def [symmetric] P_def [symmetric])
  next
    case True
    then have i_le: "unat i \<le> E div m"
      using bound by (simp add: word_less_nat_alt)
    then have "unat i * m \<le> (E div m) * m"
      by (rule mult_le_mono1)
    moreover have "(E div m) * m \<le> E"
      by simp
    ultimately have P_le: "P \<le> E"
      unfolding P_def by (rule order_trans)
    have succ: "unat (i + 1) = unat i + 1"
    proof -
      have "unat i < unat bound"
        using True by (simp add: word_less_nat_alt)
      moreover have "unat bound < 2 ^ LENGTH(32)"
        by (rule unsigned_less)
      ultimately have "unat i + 1 < 2 ^ LENGTH(32)"
        by linarith
      then show ?thesis
        by (simp add: unat_word_ariths)
    qed
    then have P_succ: "unat (i + 1) * m = P + m"
      by (simp add: P_def)
    show ?thesis
    proof (cases "bque_item q i = BQUE_OK")
      case False
      then have "n \<le> unat i"
        by (simp add: bque_item_def n_def split: if_splits)
      with i(2) i_le have "\<not> E div m < n" and "n * m \<le> P"
        by (simp_all add: P_def)
      with False True show ?thesis
        using sized
        by (subst copy_from_loop.simps)
          (auto simp: m_def [symmetric] n_def [symmetric] P_def [symmetric]
             split: bque_res.splits)
    next
      case item: True
      then have idx: "unat i < length (blocks q)"
        by (simp add: bque_item_def split: if_splits)
      define curt_size where "curt_size = (if rest_size > bs then bs else rest_size)"
      have curt: "unat curt_size = min (E - P) m"
        using rest by (auto simp: curt_size_def word_less_nat_alt m_def)
      have buff_offs: "unat buff_offs = P - O'"
        using offs P_le by simp
      have dst: "unat (0 :: rbuf_u32) + unat curt_size \<le> m"
        by (simp add: curt)
      have src: "unat buff_offs + unat curt_size \<le> length buff"
        using E(4) i(3) P_le by (simp add: buff_offs curt)
      from block_write_effect [OF sized m idx dst src] obtain q1 where
        q1: "block_write q i 0 buff buff_offs curt_size = Some q1"
        and sized1: "list_all (\<lambda>b. length b = m) (blocks q1)"
        and len1: "length (blocks q1) = n"
        and bytes1: "\<And>p. p < n * m \<Longrightarrow>
          byte_at q1 m p =
            (if P \<le> p \<and> p < P + unat curt_size then buff ! (unat buff_offs + (p - P))
             else byte_at q m p)"
        by (auto simp: n_def P_def)
      have offs': "unat (buff_offs + curt_size) = min (unat (i + 1) * m) E - O'"
      proof -
        have "unat buff_offs + unat curt_size < 2 ^ 32"
          using E i(3) P_le by (simp add: buff_offs curt)
        then have "unat (buff_offs + curt_size) = unat buff_offs + unat curt_size"
          by (simp add: unat_add_lem [THEN iffD1])
        then show ?thesis
          using i(3) P_le by (auto simp: buff_offs curt P_succ min_def)
      qed
      have rest': "unat (rest_size - curt_size) = E - unat (i + 1) * m"
      proof -
        have "unat curt_size \<le> unat rest_size"
          by (simp add: curt rest)
        then have "unat (rest_size - curt_size) = unat rest_size - unat curt_size"
          by (simp add: unat_sub word_le_nat_alt)
        then show ?thesis
          by (auto simp: curt rest P_succ min_def)
      qed
      have "\<exists>res q' calls'.
        copy_from_loop (i + 1) bound bs buff (buff_offs + curt_size) (rest_size - curt_size) q1
          (calls @ [\<lparr>sc_block_idx = i, sc_block_offs = 0,
                     sc_buff_offs = buff_offs, sc_size = curt_size\<rparr>]) = Some (res, q', calls') \<and>
        list_all (\<lambda>b. length b = unat bs) (blocks q') \<and>
        length (blocks q') = length (blocks q1) \<and>
        (\<forall>p < length (blocks q1) * unat bs.
           byte_at q' (unat bs) p =
             (if unat (i + 1) * unat bs \<le> p \<and> p < E then buff ! (p - O')
              else byte_at q1 (unat bs) p)) \<and>
        (res = (if E div unat bs < length (blocks q1) then RBUF_OK else RBUF_ERR))"
      proof (rule "1.IH" [OF True item curt_size_def q1])
        show "list_all (\<lambda>b. length b = unat bs) (blocks q1)"
          using sized1 by (simp add: m_def)
        show "0 < unat bs" "E < 2 ^ 32" "O' \<le> E" "E - O' \<le> length buff"
          using m E by (simp_all add: m_def)
        show "E \<le> length (blocks q1) * unat bs"
          using E(1) len1 by (simp add: m_def)
        show "unat bound = E div unat bs + 1"
          using bound by (simp add: m_def)
        show "unat (i + 1) \<le> E div unat bs + 1"
          using i_le succ by (simp add: m_def)
        show "unat (i + 1) \<le> length (blocks q1)"
          using idx len1 succ by (simp add: n_def)
        show "O' \<le> unat (i + 1) * unat bs"
          using i(3) P_succ by (simp add: m_def)
        show "unat (buff_offs + curt_size) = min (unat (i + 1) * unat bs) E - O'"
          using offs' by (simp add: m_def)
        show "unat (rest_size - curt_size) = E - unat (i + 1) * unat bs"
          using rest' by (simp add: m_def)
      qed
      then obtain res q' calls' where
        run: "copy_from_loop (i + 1) bound bs buff (buff_offs + curt_size)
          (rest_size - curt_size) q1
          (calls @ [\<lparr>sc_block_idx = i, sc_block_offs = 0,
                     sc_buff_offs = buff_offs, sc_size = curt_size\<rparr>]) = Some (res, q', calls')"
        and sized': "list_all (\<lambda>b. length b = m) (blocks q')"
        and len': "length (blocks q') = n"
        and bytes': "\<And>p. p < n * m \<Longrightarrow>
           byte_at q' m p =
             (if P + m \<le> p \<and> p < E then buff ! (p - O') else byte_at q1 m p)"
        and res: "res = (if E div m < n then RBUF_OK else RBUF_ERR)"
        by (auto simp: m_def [symmetric] len1 P_succ)
      have "byte_at q' m p = (if P \<le> p \<and> p < E then buff ! (p - O') else byte_at q m p)"
        if p: "p < n * m" for p
        using bytes' [OF p] bytes1 [OF p] i(3) P_le
        by (auto simp: curt buff_offs min_def split: if_splits)
      moreover have "copy_from_loop i bound bs buff buff_offs rest_size q calls
          = Some (res, q', calls')"
        using True item q1 run
        by (subst copy_from_loop.simps) (simp add: curt_size_def Let_def)
      ultimately show ?thesis
        using sized' len' res
        by (simp add: m_def [symmetric] n_def [symmetric] P_def [symmetric])
    qed
  qed
qed

text \<open>
  The walk of the copy-in over a range that lies inside the blocks held: the bytes of the
  caller's buffer stand at the positions \<open>offs\<close> to \<open>offs + sz\<close>, no other byte has
  changed, and the result is \<^verbatim>\<open>RBUF_OK\<close> exactly when the store holds the block of the end
  position \<open>offs + sz\<close>.
\<close>

lemma copy_from_blocks_effect:
  assumes sized: "blocks_sized ctx"
    and within: "unat offs + unat sz
      \<le> length (blocks (bque ctx)) * unat (block_size (conf ctx))"
    and top: "unat offs + unat sz < 2 ^ 32 - 1"
    and src: "unat sz \<le> length buff"
  shows "\<exists>res q' calls.
    copy_from_blocks ctx buff offs sz = Some (res, ctx\<lparr>bque := q'\<rparr>, calls) \<and>
    list_all (\<lambda>b. length b = unat (block_size (conf ctx))) (blocks q') \<and>
    length (blocks q') = length (blocks (bque ctx)) \<and>
    (\<forall>p < length (blocks (bque ctx)) * unat (block_size (conf ctx)).
       byte_at q' (unat (block_size (conf ctx))) p =
         (if unat offs \<le> p \<and> p < unat offs + unat sz then buff ! (p - unat offs)
          else byte_at (bque ctx) (unat (block_size (conf ctx))) p)) \<and>
    res = (if (unat offs + unat sz) div unat (block_size (conf ctx)) < length (blocks (bque ctx))
           then RBUF_OK else RBUF_ERR)"
proof -
  define bs where "bs = block_size (conf ctx)"
  define m where "m = unat bs"
  define n where "n = length (blocks (bque ctx))"
  define O' where "O' = unat offs"
  define L where "L = unat sz"
  define E where "E = O' + L"
  define S where "S = O' div m"
  define starting_block_idx where "starting_block_idx = offs div bs"
  define ending_block_idx where "ending_block_idx = (offs + sz) div bs"
  define block_offs where "block_offs = offs mod bs"
  from sized have bs: "bs \<noteq> 0" and lens: "list_all (\<lambda>b. length b = m) (blocks (bque ctx))"
    by (simp_all add: blocks_sized_def bs_def m_def)
  then have m: "0 < m"
    by (simp add: unat_gt_0 m_def)
  have E: "E \<le> n * m" "E < 2 ^ 32 - 1" "O' \<le> E" "L \<le> length buff"
    using within top src by (simp_all add: E_def O'_def L_def n_def m_def bs_def)
  have sum: "unat (offs + sz) = E"
    using E(2) by (simp add: unat_add_lem [THEN iffD1] E_def O'_def L_def)
  have start: "unat starting_block_idx = S"
    and ending: "unat ending_block_idx = E div m"
    and offs: "unat block_offs = O' mod m"
    by (simp_all add: starting_block_idx_def ending_block_idx_def block_offs_def
        unat_div unat_mod sum S_def O'_def m_def)
  have O_split: "S * m + O' mod m = O'" and O_mod: "O' mod m < m"
    using m by (simp_all add: S_def)
  have "E div m \<le> E"
    by simp
  with E(2) have E_div: "E div m + 1 < 2 ^ 32"
    by linarith
  have bound: "unat (ending_block_idx + 1) = E div m + 1"
  proof -
    have "unat ending_block_idx + unat (1 :: rbuf_u32) < 2 ^ 32"
      using E_div by (simp add: ending)
    then show ?thesis
      by (simp add: unat_add_lem [THEN iffD1] ending)
  qed
  have S_le: "S \<le> E div m"
    using E(3) by (simp add: S_def div_le_mono)
  have first: "unat (starting_block_idx + 1) = S + 1"
  proof -
    have "unat starting_block_idx + unat (1 :: rbuf_u32) < 2 ^ 32"
      using E_div S_le by (simp add: start)
    then show ?thesis
      by (simp add: unat_add_lem [THEN iffD1] start)
  qed
  have same: "ctx\<lparr>bque := bque ctx\<rparr> = ctx"
    by simp
  note defs = copy_from_blocks_def Let_def bs_def [symmetric] starting_block_idx_def [symmetric]
    ending_block_idx_def [symmetric] block_offs_def [symmetric]
  have goal: "\<exists>res q' calls.
    copy_from_blocks ctx buff offs sz = Some (res, ctx\<lparr>bque := q'\<rparr>, calls) \<and>
    list_all (\<lambda>b. length b = m) (blocks q') \<and> length (blocks q') = n \<and>
    (\<forall>p < n * m. byte_at q' m p =
         (if O' \<le> p \<and> p < E then buff ! (p - O') else byte_at (bque ctx) m p)) \<and>
    (res = (if E div m < n then RBUF_OK else RBUF_ERR))"
  proof (cases "starting_block_idx = ending_block_idx")
    case eq: True
    then have S_eq: "E div m = S"
      using start ending by simp
    show ?thesis
    proof (cases "bque_item (bque ctx) starting_block_idx = BQUE_OK")
      case False
      then have "n \<le> S"
        using start by (simp add: bque_item_def n_def split: if_splits)
      then have "n * m \<le> S * m"
        by (rule mult_le_mono1)
      with O_split have "n * m \<le> O'"
        by linarith
      moreover have "copy_from_blocks ctx buff offs sz = Some (RBUF_ERR, ctx\<lparr>bque := bque ctx\<rparr>, [])"
        using False eq bs unfolding same
        by (auto simp: defs split: bque_res.splits)
      ultimately show ?thesis
        using lens \<open>n \<le> S\<close> S_eq
        by (intro exI [of _ RBUF_ERR] exI [of _ "bque ctx"] exI [of _ "[]"])
          (auto simp: n_def)
    next
      case True
      then have idx: "unat starting_block_idx < length (blocks (bque ctx))"
        by (simp add: bque_item_def split: if_splits)
      have "O' div m = (O' + L) div m"
        using S_eq by (simp add: S_def E_def)
      from same_block_fits [OF m this] have dst: "unat block_offs + unat sz \<le> m"
        by (simp add: offs L_def)
      have src': "unat (0 :: rbuf_u32) + unat sz \<le> length buff"
        using E(4) by (simp add: L_def)
      from block_write_effect [OF lens m idx dst src'] obtain q' where
        q': "block_write (bque ctx) starting_block_idx block_offs buff 0 sz = Some q'"
        and sized': "list_all (\<lambda>b. length b = m) (blocks q')"
        and len': "length (blocks q') = n"
        and raw: "\<forall>p < n * m.
          byte_at q' m p =
            (if unat starting_block_idx * m + unat block_offs \<le> p \<and>
                p < unat starting_block_idx * m + unat block_offs + unat sz
             then buff ! (unat (0 :: rbuf_u32) + (p - (unat starting_block_idx * m + unat block_offs)))
             else byte_at (bque ctx) m p)"
        unfolding n_def by blast
      have pos: "unat starting_block_idx * m + unat block_offs = O'"
        using O_split by (simp add: start offs)
      have bytes': "byte_at q' m p =
            (if O' \<le> p \<and> p < E then buff ! (p - O') else byte_at (bque ctx) m p)"
        if "p < n * m" for p
        using raw that by (simp add: pos E_def L_def)
      have "copy_from_blocks ctx buff offs sz =
          Some (RBUF_OK, ctx\<lparr>bque := q'\<rparr>,
            [\<lparr>sc_block_idx = starting_block_idx, sc_block_offs = block_offs,
              sc_buff_offs = 0, sc_size = sz\<rparr>])"
        using True eq bs q' by (simp add: defs)
      moreover have "RBUF_OK = (if E div m < n then RBUF_OK else RBUF_ERR)"
        using idx S_eq start by (simp add: n_def)
      ultimately show ?thesis
        using sized' len' bytes' by blast
    qed
  next
    case neq: False
    then have "unat starting_block_idx \<noteq> unat ending_block_idx"
      by (simp add: word_unat_eq_iff)
    then have S_neq: "O' div m \<noteq> (O' + L) div m"
      by (simp add: start ending S_def E_def)
    from other_block_fills [OF m this] have fills: "m - O' mod m \<le> L" .
    from S_neq S_le have S_less: "S + 1 \<le> E div m"
      by (simp add: S_def E_def)
    then have "(S + 1) * m \<le> (E div m) * m"
      by (rule mult_le_mono1)
    also have "(E div m) * m \<le> E"
      by simp
    finally have next_le: "S * m + m \<le> E"
      by simp
    have idx: "unat starting_block_idx < length (blocks (bque ctx))"
    proof (rule ccontr)
      assume "\<not> unat starting_block_idx < length (blocks (bque ctx))"
      then have "n \<le> S"
        by (simp add: start n_def)
      then have "n * m \<le> S * m"
        by (rule mult_le_mono1)
      with next_le E(1) m show False
        by linarith
    qed
    then have item: "bque_item (bque ctx) starting_block_idx = BQUE_OK"
      by (simp add: bque_item_def)
    define curt_size where "curt_size = bs - block_offs"
    have curt: "unat curt_size = m - O' mod m"
      using O_mod by (simp add: curt_size_def unat_sub word_le_nat_alt offs m_def [symmetric])
    have dst: "unat block_offs + unat curt_size \<le> m"
      using O_mod by (simp add: offs curt)
    have src': "unat (0 :: rbuf_u32) + unat curt_size \<le> length buff"
      using fills E(4) by (simp add: curt)
    from block_write_effect [OF lens m idx dst src'] obtain q1 where
      q1: "block_write (bque ctx) starting_block_idx block_offs buff 0 curt_size = Some q1"
      and sized1: "list_all (\<lambda>b. length b = m) (blocks q1)"
      and len1: "length (blocks q1) = n"
      and raw1: "\<forall>p < n * m.
        byte_at q1 m p =
          (if unat starting_block_idx * m + unat block_offs \<le> p \<and>
              p < unat starting_block_idx * m + unat block_offs + unat curt_size
           then buff ! (unat (0 :: rbuf_u32) + (p - (unat starting_block_idx * m + unat block_offs)))
           else byte_at (bque ctx) m p)"
      unfolding n_def by blast
    have pos: "unat starting_block_idx * m + unat block_offs = O'"
      using O_split by (simp add: start offs)
    have pos_end: "O' + unat curt_size = S * m + m"
      using O_split O_mod by (simp add: curt)
    have bytes1: "byte_at q1 m p =
          (if O' \<le> p \<and> p < S * m + m then buff ! (p - O') else byte_at (bque ctx) m p)"
      if "p < n * m" for p
      using raw1 that by (simp add: pos pos_end)
    have rest: "unat (sz - curt_size) = E - unat (starting_block_idx + 1) * m"
    proof -
      have "unat curt_size \<le> unat sz"
        using fills by (simp add: curt L_def)
      then have "unat (sz - curt_size) = L - (m - O' mod m)"
        by (simp add: unat_sub word_le_nat_alt curt L_def)
      with O_split O_mod next_le show ?thesis
        by (simp add: first E_def)
    qed
    have offs1: "unat curt_size = min (unat (starting_block_idx + 1) * m) E - O'"
      using O_split O_mod next_le by (simp add: curt first min_def)
    have "\<exists>res q' calls'.
      copy_from_loop (starting_block_idx + 1) (ending_block_idx + 1) bs buff curt_size
        (sz - curt_size) q1
        [\<lparr>sc_block_idx = starting_block_idx, sc_block_offs = block_offs,
          sc_buff_offs = 0, sc_size = curt_size\<rparr>] = Some (res, q', calls') \<and>
      list_all (\<lambda>b. length b = unat bs) (blocks q') \<and>
      length (blocks q') = length (blocks q1) \<and>
      (\<forall>p < length (blocks q1) * unat bs.
         byte_at q' (unat bs) p =
           (if unat (starting_block_idx + 1) * unat bs \<le> p \<and> p < E then buff ! (p - O')
            else byte_at q1 (unat bs) p)) \<and>
      (res = (if E div unat bs < length (blocks q1) then RBUF_OK else RBUF_ERR))"
    proof (rule copy_from_loop_effect)
      show "list_all (\<lambda>b. length b = unat bs) (blocks q1)"
        using sized1 by (simp add: m_def)
      show "0 < unat bs" "O' \<le> E"
        using m E by (simp_all add: m_def)
      show "E < 2 ^ 32"
        using E(2) by simp
      show "E - O' \<le> length buff"
        using E(4) by (simp add: E_def)
      show "E \<le> length (blocks q1) * unat bs"
        using E(1) len1 by (simp add: m_def)
      show "unat (ending_block_idx + 1) = E div unat bs + 1"
        using bound by (simp add: m_def)
      show "unat (starting_block_idx + 1) \<le> E div unat bs + 1"
        using S_less first by (simp add: m_def)
      show "unat (starting_block_idx + 1) \<le> length (blocks q1)"
        using idx len1 first start by (simp add: n_def)
      show "O' \<le> unat (starting_block_idx + 1) * unat bs"
        using O_split O_mod by (simp add: first m_def [symmetric])
      show "unat curt_size = min (unat (starting_block_idx + 1) * unat bs) E - O'"
        using offs1 by (simp add: m_def)
      show "unat (sz - curt_size) = E - unat (starting_block_idx + 1) * unat bs"
        using rest by (simp add: m_def)
    qed
    then obtain res q' calls' where
      run: "copy_from_loop (starting_block_idx + 1) (ending_block_idx + 1) bs buff curt_size
        (sz - curt_size) q1
        [\<lparr>sc_block_idx = starting_block_idx, sc_block_offs = block_offs,
          sc_buff_offs = 0, sc_size = curt_size\<rparr>] = Some (res, q', calls')"
      and sized': "list_all (\<lambda>b. length b = m) (blocks q')"
      and len': "length (blocks q') = n"
      and bytes': "\<And>p. p < n * m \<Longrightarrow>
         byte_at q' m p =
           (if S * m + m \<le> p \<and> p < E then buff ! (p - O') else byte_at q1 m p)"
      and res: "res = (if E div m < n then RBUF_OK else RBUF_ERR)"
      by (auto simp: m_def [symmetric] len1 first)
    have "byte_at q' m p = (if O' \<le> p \<and> p < E then buff ! (p - O') else byte_at (bque ctx) m p)"
      if p: "p < n * m" for p
      using bytes' [OF p] bytes1 [OF p] next_le O_split O_mod
      by (auto split: if_splits)
    moreover have "copy_from_blocks ctx buff offs sz = Some (res, ctx\<lparr>bque := q'\<rparr>, calls')"
      using neq item bs q1 run by (simp add: defs curt_size_def [symmetric])
    ultimately show ?thesis
      using sized' len' res by blast
  qed
  then show ?thesis
    unfolding E_def O'_def L_def n_def m_def bs_def .
qed

text \<open>The same for the copy-out: what one \<^verbatim>\<open>memcpy\<close> out of a block leaves in the buffer.\<close>

lemma byte_at_block:
  assumes "0 < m" and "x < m"
  shows "byte_at q m (j * m + x) = blocks q ! j ! x"
  using assms by (simp add: byte_at_def)

lemma block_read_effect:
  assumes sized: "list_all (\<lambda>b. length b = m) (blocks q)"
    and m: "0 < m"
    and idx: "unat idx < length (blocks q)"
    and src: "unat block_offs + unat n \<le> m"
    and dst: "unat buff_offs + unat n \<le> length buff"
  shows "\<exists>buff'. block_read q idx block_offs buff buff_offs n = Some buff' \<and>
    length buff' = length buff \<and>
    (\<forall>t < length buff.
       buff' ! t =
         (if unat buff_offs \<le> t \<and> t < unat buff_offs + unat n
          then byte_at q m (unat idx * m + unat block_offs + (t - unat buff_offs))
          else buff ! t))"
proof -
  from sized idx have len: "length (blocks q ! unat idx) = m"
    by (simp add: list_all_length)
  with src dst obtain r where
    r: "memcpy buff (unat buff_offs) (blocks q ! unat idx) (unat block_offs) (unat n) = Some r"
    using memcpy_defined [of "unat buff_offs" "unat n" buff "unat block_offs" "blocks q ! unat idx"]
    by auto
  note r_len = memcpy_nth(1) [OF r] and r_nth = memcpy_nth(2) [OF r]
  have "r ! t =
         (if unat buff_offs \<le> t \<and> t < unat buff_offs + unat n
          then byte_at q m (unat idx * m + unat block_offs + (t - unat buff_offs))
          else buff ! t)"
    if t: "t < length buff" for t
  proof (cases "unat buff_offs \<le> t \<and> t < unat buff_offs + unat n")
    case True
    then have "unat block_offs + (t - unat buff_offs) < m"
      using src by linarith
    from byte_at_block [OF m this, of q "unat idx"]
    have "byte_at q m (unat idx * m + unat block_offs + (t - unat buff_offs))
        = blocks q ! unat idx ! (unat block_offs + (t - unat buff_offs))"
      by (simp add: add.assoc)
    with True r_nth [OF t] show ?thesis
      by simp
  next
    case False
    with r_nth [OF t] show ?thesis
      by auto
  qed
  with r r_len show ?thesis
    by (simp add: block_read_def)
qed

lemma copy_to_loop_effect:
  assumes "list_all (\<lambda>b. length b = unat bs) (blocks q)"
    and "0 < unat bs"
    and "E \<le> length (blocks q) * unat bs"
    and "E < 2 ^ 32"
    and "unat bound = E div unat bs + 1"
    and "unat i \<le> E div unat bs + 1"
    and "unat i \<le> length (blocks q)"
    and "O' \<le> unat i * unat bs"
    and "O' \<le> E"
    and "unat buff_offs = min (unat i * unat bs) E - O'"
    and "unat rest_size = E - unat i * unat bs"
    and "E - O' \<le> length buff"
  shows "\<exists>res buff' calls'.
    copy_to_loop i bound bs q buff_offs rest_size buff calls = Some (res, buff', calls') \<and>
    length buff' = length buff \<and>
    (\<forall>t < length buff.
       buff' ! t =
         (if unat i * unat bs \<le> O' + t \<and> O' + t < E then byte_at q (unat bs) (O' + t)
          else buff ! t)) \<and>
    (res = (if E div unat bs < length (blocks q) then RBUF_OK else RBUF_ERR))"
  using assms
proof (induction i bound bs q buff_offs rest_size buff calls rule: copy_to_loop.induct)
  case (1 i bound bs q buff_offs rest_size buff calls)
  define m where "m = unat bs"
  define n where "n = length (blocks q)"
  define P where "P = unat i * m"
  note prems = "1.prems" [folded m_def n_def, folded P_def]
  have m: "0 < m" and E: "E \<le> n * m" "E < 2 ^ 32" "O' \<le> E" "E - O' \<le> length buff"
    and bound: "unat bound = E div m + 1"
    and i: "unat i \<le> E div m + 1" "unat i \<le> n" "O' \<le> P"
    and offs: "unat buff_offs = min P E - O'" and rest: "unat rest_size = E - P"
    and sized: "list_all (\<lambda>b. length b = m) (blocks q)"
    using prems by simp_all
  have E_split: "E = (E div m) * m + E mod m" and E_mod: "E mod m < m"
    using m by simp_all
  then have E_less: "E < (E div m + 1) * m"
    by (metis add.commute add_less_cancel_left mult.commute mult_Suc_right plus_1_eq_Suc
        add_Suc_right Suc_eq_plus1 mult_Suc)
  show ?case
  proof (cases "i < bound")
    case False
    then have "unat i = E div m + 1"
      using i(1) bound by (simp add: word_less_nat_alt)
    then have "E div m < n" and "E < P"
      using i(2) E_less by (simp_all add: P_def)
    with False show ?thesis
      by (subst copy_to_loop.simps)
        (auto simp: m_def [symmetric] n_def [symmetric] P_def [symmetric])
  next
    case True
    then have i_le: "unat i \<le> E div m"
      using bound by (simp add: word_less_nat_alt)
    then have "unat i * m \<le> (E div m) * m"
      by (rule mult_le_mono1)
    also have "(E div m) * m \<le> E"
      by simp
    finally have P_le: "P \<le> E"
      by (simp add: P_def)
    have succ: "unat (i + 1) = unat i + 1"
    proof -
      have "unat i < unat bound"
        using True by (simp add: word_less_nat_alt)
      moreover have "unat bound < 2 ^ LENGTH(32)"
        by (rule unsigned_less)
      ultimately have "unat i + 1 < 2 ^ LENGTH(32)"
        by linarith
      then show ?thesis
        by (simp add: unat_word_ariths)
    qed
    then have P_succ: "unat (i + 1) * m = P + m"
      by (simp add: P_def)
    show ?thesis
    proof (cases "bque_item q i = BQUE_OK")
      case False
      then have "n \<le> unat i"
        by (simp add: bque_item_def n_def split: if_splits)
      with i(2) i_le have "\<not> E div m < n" and "n * m \<le> P"
        by (simp_all add: P_def)
      with E(1) have "E \<le> P"
        by linarith
      with False True \<open>\<not> E div m < n\<close> show ?thesis
        by (subst copy_to_loop.simps)
          (auto simp: m_def [symmetric] n_def [symmetric] P_def [symmetric]
             split: bque_res.splits)
    next
      case item: True
      then have idx: "unat i < length (blocks q)"
        by (simp add: bque_item_def split: if_splits)
      define curt_size where "curt_size = (if rest_size > bs then bs else rest_size)"
      have curt: "unat curt_size = min (E - P) m"
        using rest by (auto simp: curt_size_def word_less_nat_alt m_def)
      have buff_offs: "unat buff_offs = P - O'"
        using offs P_le by simp
      have src: "unat (0 :: rbuf_u32) + unat curt_size \<le> m"
        by (simp add: curt)
      have dst: "unat buff_offs + unat curt_size \<le> length buff"
        using E(4) i(3) P_le by (simp add: buff_offs curt)
      from block_read_effect [OF sized m idx src dst] obtain buff1 where
        buff1: "block_read q i 0 buff buff_offs curt_size = Some buff1"
        and len1: "length buff1 = length buff"
        and raw1: "\<forall>t < length buff.
          buff1 ! t =
            (if unat buff_offs \<le> t \<and> t < unat buff_offs + unat curt_size
             then byte_at q m (unat i * m + unat (0 :: rbuf_u32) + (t - unat buff_offs))
             else buff ! t)"
        by blast
      have bytes1: "buff1 ! t =
            (if P \<le> O' + t \<and> O' + t < P + unat curt_size then byte_at q m (O' + t)
             else buff ! t)"
        if t: "t < length buff" for t
      proof (cases "P \<le> O' + t \<and> O' + t < P + unat curt_size")
        case True
        with i(3) have range: "unat buff_offs \<le> t \<and> t < unat buff_offs + unat curt_size"
          and pos: "P + (t - unat buff_offs) = O' + t"
          unfolding buff_offs by linarith+
        from raw1 t range have "buff1 ! t =
            byte_at q m (unat i * m + unat (0 :: rbuf_u32) + (t - unat buff_offs))"
          by simp
        also have "unat i * m + unat (0 :: rbuf_u32) + (t - unat buff_offs) = O' + t"
          using pos by (simp add: P_def)
        finally show ?thesis
          using True by simp
      next
        case False
        with i(3) have out: "\<not> (unat buff_offs \<le> t \<and> t < unat buff_offs + unat curt_size)"
          unfolding buff_offs by linarith
        from raw1 [rule_format, OF t] have "buff1 ! t = buff ! t"
          by (simp only: if_not_P [OF out])
        then show ?thesis
          by (simp only: if_not_P [OF False])
      qed
      have offs': "unat (buff_offs + curt_size) = min (unat (i + 1) * m) E - O'"
      proof -
        have "unat buff_offs + unat curt_size < 2 ^ 32"
          using E i(3) P_le by (simp add: buff_offs curt)
        then have "unat (buff_offs + curt_size) = unat buff_offs + unat curt_size"
          by (simp add: unat_add_lem [THEN iffD1])
        then show ?thesis
          using i(3) P_le by (auto simp: buff_offs curt P_succ min_def)
      qed
      have rest': "unat (rest_size - curt_size) = E - unat (i + 1) * m"
      proof -
        have "unat curt_size \<le> unat rest_size"
          by (simp add: curt rest)
        then have "unat (rest_size - curt_size) = unat rest_size - unat curt_size"
          by (simp add: unat_sub word_le_nat_alt)
        then show ?thesis
          by (auto simp: curt rest P_succ min_def)
      qed
      have "\<exists>res buff' calls'.
        copy_to_loop (i + 1) bound bs q (buff_offs + curt_size) (rest_size - curt_size) buff1
          (calls @ [\<lparr>sc_block_idx = i, sc_block_offs = 0,
                     sc_buff_offs = buff_offs, sc_size = curt_size\<rparr>]) = Some (res, buff', calls') \<and>
        length buff' = length buff1 \<and>
        (\<forall>t < length buff1.
           buff' ! t =
             (if unat (i + 1) * unat bs \<le> O' + t \<and> O' + t < E then byte_at q (unat bs) (O' + t)
              else buff1 ! t)) \<and>
        (res = (if E div unat bs < length (blocks q) then RBUF_OK else RBUF_ERR))"
      proof (rule "1.IH" [OF True item curt_size_def buff1])
        show "list_all (\<lambda>b. length b = unat bs) (blocks q)"
          using sized by (simp add: m_def)
        show "0 < unat bs" "E < 2 ^ 32" "O' \<le> E"
          using m E by (simp_all add: m_def)
        show "E - O' \<le> length buff1"
          using E(4) len1 by simp
        show "E \<le> length (blocks q) * unat bs"
          using E(1) by (simp add: m_def n_def)
        show "unat bound = E div unat bs + 1"
          using bound by (simp add: m_def)
        show "unat (i + 1) \<le> E div unat bs + 1"
          using i_le succ by (simp add: m_def)
        show "unat (i + 1) \<le> length (blocks q)"
          using idx succ by simp
        show "O' \<le> unat (i + 1) * unat bs"
          using i(3) P_succ by (simp add: m_def)
        show "unat (buff_offs + curt_size) = min (unat (i + 1) * unat bs) E - O'"
          using offs' by (simp add: m_def)
        show "unat (rest_size - curt_size) = E - unat (i + 1) * unat bs"
          using rest' by (simp add: m_def)
      qed
      then obtain res buff' calls' where
        run: "copy_to_loop (i + 1) bound bs q (buff_offs + curt_size)
          (rest_size - curt_size) buff1
          (calls @ [\<lparr>sc_block_idx = i, sc_block_offs = 0,
                     sc_buff_offs = buff_offs, sc_size = curt_size\<rparr>]) = Some (res, buff', calls')"
        and len': "length buff' = length buff"
        and bytes': "\<And>t. t < length buff \<Longrightarrow>
           buff' ! t =
             (if P + m \<le> O' + t \<and> O' + t < E then byte_at q m (O' + t) else buff1 ! t)"
        and res: "res = (if E div m < n then RBUF_OK else RBUF_ERR)"
        by (auto simp: m_def [symmetric] n_def [symmetric] len1 P_succ)
      have "buff' ! t = (if P \<le> O' + t \<and> O' + t < E then byte_at q m (O' + t) else buff ! t)"
        if t: "t < length buff" for t
        using bytes' [OF t] bytes1 [OF t] i(3) P_le
        by (auto simp: curt min_def split: if_splits)
      moreover have "copy_to_loop i bound bs q buff_offs rest_size buff calls
          = Some (res, buff', calls')"
        using True item buff1 run
        by (subst copy_to_loop.simps) (simp add: curt_size_def Let_def)
      ultimately show ?thesis
        using len' res
        by (simp add: m_def [symmetric] n_def [symmetric] P_def [symmetric])
    qed
  qed
qed

text \<open>
  A copy-out of a range inside the logical size, which lies inside the blocks held: the
  first \<open>sz\<close> bytes of the destination are the bytes of the store at the positions from
  \<open>offs\<close> on, the rest of the destination is as before, the context is returned as it
  was, and the result is \<^verbatim>\<open>RBUF_OK\<close> exactly when the store holds the block of the end
  position \<open>offs + sz\<close>.
\<close>

lemma copy_to_effect:
  assumes sized: "blocks_sized ctx"
    and range: "unat offs + unat sz \<le> unat (buff_size (cache ctx))"
    and held: "unat (buff_size (cache ctx))
      \<le> length (blocks (bque ctx)) * unat (block_size (conf ctx))"
    and top: "unat offs + unat sz < 2 ^ 32 - 1"
    and dst: "unat sz \<le> length buff"
  shows "\<exists>res buff' calls.
    rbuf_copy_to ctx buff offs sz = Some (res, ctx, buff', calls) \<and>
    length buff' = length buff \<and>
    (\<forall>t < length buff.
       buff' ! t =
         (if t < unat sz then byte_at (bque ctx) (unat (block_size (conf ctx))) (unat offs + t)
          else buff ! t)) \<and>
    res = (if (unat offs + unat sz) div unat (block_size (conf ctx)) < length (blocks (bque ctx))
           then RBUF_OK else RBUF_ERR)"
proof -
  define bs where "bs = block_size (conf ctx)"
  define m where "m = unat bs"
  define n where "n = length (blocks (bque ctx))"
  define O' where "O' = unat offs"
  define L where "L = unat sz"
  define E where "E = O' + L"
  define S where "S = O' div m"
  define starting_block_idx where "starting_block_idx = offs div bs"
  define ending_block_idx where "ending_block_idx = (offs + sz) div bs"
  define block_offs where "block_offs = offs mod bs"
  from sized have bs: "bs \<noteq> 0" and lens: "list_all (\<lambda>b. length b = m) (blocks (bque ctx))"
    by (simp_all add: blocks_sized_def bs_def m_def)
  then have m: "0 < m"
    by (simp add: unat_gt_0 m_def)
  have E: "E \<le> n * m" "E < 2 ^ 32 - 1" "O' \<le> E" "L \<le> length buff"
    using range held top dst by (simp_all add: E_def O'_def L_def n_def m_def bs_def)
  have sum: "unat (offs + sz) = E"
    using E(2) by (simp add: unat_add_lem [THEN iffD1] E_def O'_def L_def)
  have checks: "\<not> offs > buff_size (cache ctx)" "\<not> offs + sz > buff_size (cache ctx)"
    using range sum by (simp_all add: word_less_nat_alt E_def O'_def L_def)
  have start: "unat starting_block_idx = S"
    and ending: "unat ending_block_idx = E div m"
    and offs: "unat block_offs = O' mod m"
    by (simp_all add: starting_block_idx_def ending_block_idx_def block_offs_def
        unat_div unat_mod sum S_def O'_def m_def)
  have O_split: "S * m + O' mod m = O'" and O_mod: "O' mod m < m"
    using m by (simp_all add: S_def)
  have "E div m \<le> E"
    by simp
  with E(2) have E_div: "E div m + 1 < 2 ^ 32"
    by linarith
  have bound: "unat (ending_block_idx + 1) = E div m + 1"
  proof -
    have "unat ending_block_idx + unat (1 :: rbuf_u32) < 2 ^ 32"
      using E_div by (simp add: ending)
    then show ?thesis
      by (simp add: unat_add_lem [THEN iffD1] ending)
  qed
  have S_le: "S \<le> E div m"
    using E(3) by (simp add: S_def div_le_mono)
  have first: "unat (starting_block_idx + 1) = S + 1"
  proof -
    have "unat starting_block_idx + unat (1 :: rbuf_u32) < 2 ^ 32"
      using E_div S_le by (simp add: start)
    then show ?thesis
      by (simp add: unat_add_lem [THEN iffD1] start)
  qed
  note defs = rbuf_copy_to_def Let_def bs_def [symmetric] starting_block_idx_def [symmetric]
    ending_block_idx_def [symmetric] block_offs_def [symmetric]
  have goal: "\<exists>res buff' calls.
    rbuf_copy_to ctx buff offs sz = Some (res, ctx, buff', calls) \<and>
    length buff' = length buff \<and>
    (\<forall>t < length buff. buff' ! t = (if t < L then byte_at (bque ctx) m (O' + t) else buff ! t)) \<and>
    (res = (if E div m < n then RBUF_OK else RBUF_ERR))"
  proof (cases "starting_block_idx = ending_block_idx")
    case eq: True
    then have S_eq: "E div m = S"
      using start ending by simp
    have "O' div m = (O' + L) div m"
      using S_eq by (simp add: S_def E_def)
    from same_block_fits [OF m this] have fits: "O' mod m + L < m" .
    show ?thesis
    proof (cases "bque_item (bque ctx) starting_block_idx = BQUE_OK")
      case False
      then have "n \<le> S"
        using start by (simp add: bque_item_def n_def split: if_splits)
      then have "n * m \<le> S * m"
        by (rule mult_le_mono1)
      with O_split E(1) have "L = 0"
        unfolding E_def by linarith
      moreover have "rbuf_copy_to ctx buff offs sz = Some (RBUF_ERR, ctx, buff, [])"
        using False eq bs checks by (auto simp: defs split: bque_res.splits)
      ultimately show ?thesis
        using \<open>n \<le> S\<close> S_eq by simp
    next
      case True
      then have idx: "unat starting_block_idx < length (blocks (bque ctx))"
        by (simp add: bque_item_def split: if_splits)
      have src: "unat block_offs + unat sz \<le> m"
        using fits by (simp add: offs L_def)
      have dst': "unat (0 :: rbuf_u32) + unat sz \<le> length buff"
        using E(4) by (simp add: L_def)
      from block_read_effect [OF lens m idx src dst'] obtain buff' where
        buff': "block_read (bque ctx) starting_block_idx block_offs buff 0 sz = Some buff'"
        and len': "length buff' = length buff"
        and raw: "\<forall>t < length buff.
          buff' ! t =
            (if unat (0 :: rbuf_u32) \<le> t \<and> t < unat (0 :: rbuf_u32) + unat sz
             then byte_at (bque ctx) m
               (unat starting_block_idx * m + unat block_offs + (t - unat (0 :: rbuf_u32)))
             else buff ! t)"
        by blast
      have pos: "unat starting_block_idx * m + unat block_offs = O'"
        using O_split by (simp add: start offs)
      have bytes': "buff' ! t = (if t < L then byte_at (bque ctx) m (O' + t) else buff ! t)"
        if "t < length buff" for t
        using raw that by (simp add: pos L_def)
      have "rbuf_copy_to ctx buff offs sz =
          Some (RBUF_OK, ctx, buff',
            [\<lparr>sc_block_idx = starting_block_idx, sc_block_offs = block_offs,
              sc_buff_offs = 0, sc_size = sz\<rparr>])"
        using True eq bs checks buff' by (simp add: defs)
      moreover have "RBUF_OK = (if E div m < n then RBUF_OK else RBUF_ERR)"
        using idx S_eq start by (simp add: n_def)
      ultimately show ?thesis
        using len' bytes' by blast
    qed
  next
    case neq: False
    then have "unat starting_block_idx \<noteq> unat ending_block_idx"
      by (simp add: word_unat_eq_iff)
    then have S_neq: "O' div m \<noteq> (O' + L) div m"
      by (simp add: start ending S_def E_def)
    from other_block_fills [OF m this] have fills: "m - O' mod m \<le> L" .
    from S_neq S_le have S_less: "S + 1 \<le> E div m"
      by (simp add: S_def E_def)
    then have "(S + 1) * m \<le> (E div m) * m"
      by (rule mult_le_mono1)
    also have "(E div m) * m \<le> E"
      by simp
    finally have next_le: "S * m + m \<le> E"
      by simp
    have idx: "unat starting_block_idx < length (blocks (bque ctx))"
    proof (rule ccontr)
      assume "\<not> unat starting_block_idx < length (blocks (bque ctx))"
      then have "n \<le> S"
        by (simp add: start n_def)
      then have "n * m \<le> S * m"
        by (rule mult_le_mono1)
      with next_le E(1) m show False
        by linarith
    qed
    then have item: "bque_item (bque ctx) starting_block_idx = BQUE_OK"
      by (simp add: bque_item_def)
    define curt_size where "curt_size = bs - block_offs"
    have curt: "unat curt_size = m - O' mod m"
      using O_mod by (simp add: curt_size_def unat_sub word_le_nat_alt offs m_def [symmetric])
    have src: "unat block_offs + unat curt_size \<le> m"
      using O_mod by (simp add: offs curt)
    have dst': "unat (0 :: rbuf_u32) + unat curt_size \<le> length buff"
      using fills E(4) by (simp add: curt)
    from block_read_effect [OF lens m idx src dst'] obtain buff1 where
      buff1: "block_read (bque ctx) starting_block_idx block_offs buff 0 curt_size = Some buff1"
      and len1: "length buff1 = length buff"
      and raw1: "\<forall>t < length buff.
        buff1 ! t =
          (if unat (0 :: rbuf_u32) \<le> t \<and> t < unat (0 :: rbuf_u32) + unat curt_size
           then byte_at (bque ctx) m
             (unat starting_block_idx * m + unat block_offs + (t - unat (0 :: rbuf_u32)))
           else buff ! t)"
      by blast
    have pos: "unat starting_block_idx * m + unat block_offs = O'"
      using O_split by (simp add: start offs)
    have pos_end: "O' + unat curt_size = S * m + m"
      using O_split O_mod by (simp add: curt)
    have bytes1: "buff1 ! t =
          (if O' + t < S * m + m then byte_at (bque ctx) m (O' + t) else buff ! t)"
      if "t < length buff" for t
      using raw1 that pos_end by (simp add: pos)
    have rest: "unat (sz - curt_size) = E - unat (starting_block_idx + 1) * m"
    proof -
      have "unat curt_size \<le> unat sz"
        using fills by (simp add: curt L_def)
      then have "unat (sz - curt_size) = L - (m - O' mod m)"
        by (simp add: unat_sub word_le_nat_alt curt L_def)
      with O_split O_mod next_le show ?thesis
        by (simp add: first E_def)
    qed
    have offs1: "unat curt_size = min (unat (starting_block_idx + 1) * m) E - O'"
      using O_split O_mod next_le by (simp add: curt first min_def)
    have "\<exists>res buff' calls'.
      copy_to_loop (starting_block_idx + 1) (ending_block_idx + 1) bs (bque ctx) curt_size
        (sz - curt_size) buff1
        [\<lparr>sc_block_idx = starting_block_idx, sc_block_offs = block_offs,
          sc_buff_offs = 0, sc_size = curt_size\<rparr>] = Some (res, buff', calls') \<and>
      length buff' = length buff1 \<and>
      (\<forall>t < length buff1.
         buff' ! t =
           (if unat (starting_block_idx + 1) * unat bs \<le> O' + t \<and> O' + t < E
            then byte_at (bque ctx) (unat bs) (O' + t) else buff1 ! t)) \<and>
      (res = (if E div unat bs < length (blocks (bque ctx)) then RBUF_OK else RBUF_ERR))"
    proof (rule copy_to_loop_effect)
      show "list_all (\<lambda>b. length b = unat bs) (blocks (bque ctx))"
        using lens by (simp add: m_def)
      show "0 < unat bs" "O' \<le> E"
        using m E by (simp_all add: m_def)
      show "E < 2 ^ 32"
        using E(2) by simp
      show "E - O' \<le> length buff1"
        using E(4) len1 by (simp add: E_def)
      show "E \<le> length (blocks (bque ctx)) * unat bs"
        using E(1) by (simp add: m_def n_def)
      show "unat (ending_block_idx + 1) = E div unat bs + 1"
        using bound by (simp add: m_def)
      show "unat (starting_block_idx + 1) \<le> E div unat bs + 1"
        using S_less first by (simp add: m_def)
      show "unat (starting_block_idx + 1) \<le> length (blocks (bque ctx))"
        using idx first start by simp
      show "O' \<le> unat (starting_block_idx + 1) * unat bs"
        using O_split O_mod by (simp add: first m_def [symmetric])
      show "unat curt_size = min (unat (starting_block_idx + 1) * unat bs) E - O'"
        using offs1 by (simp add: m_def)
      show "unat (sz - curt_size) = E - unat (starting_block_idx + 1) * unat bs"
        using rest by (simp add: m_def)
    qed
    then obtain res buff' calls' where
      run: "copy_to_loop (starting_block_idx + 1) (ending_block_idx + 1) bs (bque ctx) curt_size
        (sz - curt_size) buff1
        [\<lparr>sc_block_idx = starting_block_idx, sc_block_offs = block_offs,
          sc_buff_offs = 0, sc_size = curt_size\<rparr>] = Some (res, buff', calls')"
      and len': "length buff' = length buff"
      and bytes': "\<And>t. t < length buff \<Longrightarrow>
         buff' ! t =
           (if S * m + m \<le> O' + t \<and> O' + t < E then byte_at (bque ctx) m (O' + t)
            else buff1 ! t)"
      and res: "res = (if E div m < n then RBUF_OK else RBUF_ERR)"
      by (auto simp: m_def [symmetric] n_def [symmetric] len1 first)
    have "buff' ! t = (if t < L then byte_at (bque ctx) m (O' + t) else buff ! t)"
      if t: "t < length buff" for t
      using bytes' [OF t] bytes1 [OF t] next_le
      by (auto simp: E_def split: if_splits)
    moreover have "rbuf_copy_to ctx buff offs sz = Some (res, ctx, buff', calls')"
      using neq item bs checks buff1 run by (simp add: defs curt_size_def [symmetric])
    ultimately show ?thesis
      using len' res by blast
  qed
  then show ?thesis
    unfolding E_def O'_def L_def n_def m_def bs_def .
qed

section \<open>The round trip\<close>

text \<open>
  Writing \<open>sz\<close> bytes at \<open>offs\<close> and reading \<open>sz\<close> bytes at \<open>offs\<close> back, for a range inside
  the logical size of a buffer whose blocks have the configured size and cover the logical
  size, which is within the capacity. Both calls return, with the same result code; the
  first \<open>sz\<close> bytes of the destination are the bytes written and the rest of the
  destination is untouched, whatever the code. The code is \<^verbatim>\<open>RBUF_OK\<close> when the store holds
  the block of the end position \<open>offs + sz\<close>, and \<^verbatim>\<open>RBUF_ERR\<close> otherwise, that is when
  the range ends on the end of the last block.
\<close>

theorem round_trip_bytes:
  assumes sized: "blocks_sized ctx"
    and range: "unat offs + unat sz \<le> unat (buff_size (cache ctx))"
    and held: "unat (buff_size (cache ctx))
      \<le> length (blocks (bque ctx)) * unat (block_size (conf ctx))"
    and cap: "unat (buff_size (cache ctx)) \<le> unat (buff_cap (cache ctx))"
    and top: "unat offs + unat sz < 2 ^ 32 - 1"
    and src: "unat sz \<le> length buff"
    and dst: "unat sz \<le> length dest"
  shows "\<exists>res ctx' calls dest' calls'.
    rbuf_copy_from ctx buff offs sz = Some (res, ctx', calls) \<and>
    rbuf_copy_to ctx' dest offs sz = Some (res, ctx', dest', calls') \<and>
    take (unat sz) dest' = take (unat sz) buff \<and>
    drop (unat sz) dest' = drop (unat sz) dest \<and>
    res = (if (unat offs + unat sz) div unat (block_size (conf ctx)) < length (blocks (bque ctx))
           then RBUF_OK else RBUF_ERR)"
proof -
  define m where "m = unat (block_size (conf ctx))"
  define n where "n = length (blocks (bque ctx))"
  have within: "unat offs + unat sz \<le> n * m"
    using range held by (simp add: n_def m_def)
  have no_wrap: "unat (offs + sz) = unat offs + unat sz"
    using top by (simp add: unat_add_lem [THEN iffD1])
  with range cap have "\<not> offs + sz > buff_cap (cache ctx)"
    by (simp add: word_less_nat_alt)
  then have walk: "rbuf_copy_from ctx buff offs sz = copy_from_blocks ctx buff offs sz"
    by (simp add: rbuf_copy_from_def)
  from copy_from_blocks_effect [OF sized within [unfolded n_def m_def] top src]
  obtain res q' calls where
    wrote: "copy_from_blocks ctx buff offs sz = Some (res, ctx\<lparr>bque := q'\<rparr>, calls)"
    and sized': "list_all (\<lambda>b. length b = m) (blocks q')"
    and len': "length (blocks q') = n"
    and bytes: "\<And>p. p < n * m \<Longrightarrow>
      byte_at q' m p =
        (if unat offs \<le> p \<and> p < unat offs + unat sz then buff ! (p - unat offs)
         else byte_at (bque ctx) m p)"
    and res: "res = (if (unat offs + unat sz) div m < n then RBUF_OK else RBUF_ERR)"
    unfolding n_def m_def by blast
  define ctx' where "ctx' = ctx\<lparr>bque := q'\<rparr>"
  have sized_ctx': "blocks_sized ctx'"
    using sized sized' by (simp add: blocks_sized_def ctx'_def m_def)
  have range': "unat offs + unat sz \<le> unat (buff_size (cache ctx'))"
    using range by (simp add: ctx'_def)
  have held': "unat (buff_size (cache ctx'))
      \<le> length (blocks (bque ctx')) * unat (block_size (conf ctx'))"
    using held len' by (simp add: ctx'_def n_def)
  from copy_to_effect [OF sized_ctx' range' held' top dst]
  obtain res' dest' calls' where
    read: "rbuf_copy_to ctx' dest offs sz = Some (res', ctx', dest', calls')"
    and dest_len: "length dest' = length dest"
    and dest_bytes: "\<And>t. t < length dest \<Longrightarrow>
      dest' ! t = (if t < unat sz then byte_at q' m (unat offs + t) else dest ! t)"
    and res': "res' = (if (unat offs + unat sz) div m < n then RBUF_OK else RBUF_ERR)"
    by (auto simp: ctx'_def m_def len')
  have same_res: "res' = res"
    using res res' by simp
  have moved: "take (unat sz) dest' = take (unat sz) buff"
  proof (rule nth_equalityI)
    show "length (take (unat sz) dest') = length (take (unat sz) buff)"
      using src dst dest_len by simp
    fix t
    assume "t < length (take (unat sz) dest')"
    then have t: "t < unat sz" "t < length dest"
      using dst dest_len by simp_all
    with within have "unat offs + t < n * m"
      by linarith
    from bytes [OF this] t have "byte_at q' m (unat offs + t) = buff ! t"
      by simp
    with dest_bytes [OF t(2)] t src show "take (unat sz) dest' ! t = take (unat sz) buff ! t"
      by simp
  qed
  have untouched: "drop (unat sz) dest' = drop (unat sz) dest"
  proof (rule nth_equalityI)
    show "length (drop (unat sz) dest') = length (drop (unat sz) dest)"
      using dest_len by simp
    fix t
    assume "t < length (drop (unat sz) dest')"
    then have "unat sz + t < length dest"
      using dest_len by simp
    from dest_bytes [OF this] show "drop (unat sz) dest' ! t = drop (unat sz) dest ! t"
      using dst dest_len by simp
  qed
  from walk wrote have "rbuf_copy_from ctx buff offs sz = Some (res, ctx', calls)"
    by (simp add: ctx'_def)
  with read same_res moved untouched res show ?thesis
    unfolding m_def n_def by blast
qed

section \<open>The state a resize leaves\<close>

lemma resize_enqueue_blocks:
  "resize_enqueue i d bs q = (BQUE_OK, q') \<Longrightarrow>
   blocks q' = blocks q @ replicate (unat d - unat i) (replicate (unat bs) 0)"
proof (induction i d bs q rule: resize_enqueue.induct)
  case (1 i d bs q)
  show ?case
  proof (cases "i < d")
    case True
    note left = rounds_left [OF True]
    from "1.prems" True obtain q1 where
      q1: "bque_enqueue q bs = (BQUE_OK, q1)"
      and run: "resize_enqueue (i + 1) d bs q1 = (BQUE_OK, q')"
      by (subst (asm) resize_enqueue.simps) (auto split: prod.splits bque_res.splits)
    from q1 have "blocks q1 = blocks q @ [replicate (unat bs) 0]"
      by (auto simp: bque_enqueue_def split: list.splits bque_res.splits)
    with "1.IH" [OF True q1 [symmetric] refl run] left show ?thesis
      by (simp add: replicate_append_same)
  next
    case False
    then have "unat d - unat i = 0"
      by (simp add: word_less_nat_alt)
    with False "1.prems" show ?thesis
      by (subst (asm) resize_enqueue.simps) simp
  qed
qed

lemma resize_forfeit_blocks:
  "resize_forfeit i d q = (BQUE_OK, q') \<Longrightarrow>
   unat d - unat i \<le> length (blocks q) \<and>
   blocks q' = take (length (blocks q) - (unat d - unat i)) (blocks q)"
proof (induction i d q rule: resize_forfeit.induct)
  case (1 i d q)
  show ?case
  proof (cases "i < d")
    case True
    note left = rounds_left [OF True]
    from "1.prems" True obtain q1 where
      q1: "bque_forfeit q = (BQUE_OK, q1)"
      and run: "resize_forfeit (i + 1) d q1 = (BQUE_OK, q')"
      by (subst (asm) resize_forfeit.simps) (auto split: prod.splits bque_res.splits)
    from q1 have ne: "blocks q \<noteq> []" and b1: "blocks q1 = butlast (blocks q)"
      by (auto simp: bque_forfeit_def split: if_splits)
    from ne have pos: "1 \<le> length (blocks q)"
      by (cases "blocks q") simp_all
    have len1: "length (blocks q1) = length (blocks q) - 1"
      using b1 by simp
    from "1.IH" [OF True q1 [symmetric] refl run] have
      enough: "unat d - unat (i + 1) \<le> length (blocks q1)"
      and rest: "blocks q' = take (length (blocks q1) - (unat d - unat (i + 1))) (blocks q1)"
      by simp_all
    from enough left len1 pos have "unat d - unat i \<le> length (blocks q)"
      by linarith
    moreover have "length (blocks q1) - (unat d - unat (i + 1))
        = length (blocks q) - (unat d - unat i)"
      using left len1 by linarith
    moreover have "length (blocks q) - (unat d - unat i) < length (blocks q)"
      using left pos by linarith
    ultimately show ?thesis
      using rest b1 by (simp add: take_butlast)
  next
    case False
    then have "unat d - unat i = 0"
      by (simp add: word_less_nat_alt)
    with False "1.prems" show ?thesis
      by (subst (asm) resize_forfeit.simps) simp
  qed
qed

lemma coherent_fresh:
  assumes "bs \<noteq> 0"
  shows "coherent (fresh bs mx outcomes)"
  using assms by (simp add: coherent_def blocks_sized_def fresh_def)

lemma resize_coherent:
  assumes coh: "coherent ctx"
    and ok: "rbuf_resize ctx sz = Some (RBUF_OK, ctx')"
    and no_wrap: "unat (required_blocks sz (block_size (conf ctx)))
      * unat (block_size (conf ctx)) < 2 ^ 32"
  shows "coherent ctx' \<and> buff_size (cache ctx') = sz \<and> conf ctx' = conf ctx"
proof -
  define bs where "bs = block_size (conf ctx)"
  define nb where "nb = required_blocks sz bs"
  from coh have bs: "bs \<noteq> 0"
    and lens: "list_all (\<lambda>b. length b = unat bs) (blocks (bque ctx))"
    and held: "length (blocks (bque ctx)) = unat (block_num (cache ctx))"
    and cap: "unat (buff_cap (cache ctx)) = unat (block_num (cache ctx)) * unat bs"
    by (simp_all add: coherent_def blocks_sized_def bs_def)
  then have pos: "0 < unat bs"
    by (simp add: unat_gt_0)
  have ceil: "unat nb = (unat sz + unat bs - 1) div unat bs"
    unfolding nb_def by (rule required_blocks_ceiling [OF bs])
  have "unat sz \<le> ((unat sz + unat bs - 1) div unat bs) * unat bs"
  proof -
    have "unat sz + unat bs - 1
        = ((unat sz + unat bs - 1) div unat bs) * unat bs + (unat sz + unat bs - 1) mod unat bs"
      by simp
    moreover have "(unat sz + unat bs - 1) mod unat bs < unat bs"
      using pos by simp
    ultimately show ?thesis
      by linarith
  qed
  then have covers: "unat sz \<le> unat nb * unat bs"
    by (simp add: ceil)
  have new_cap: "unat (bs * nb) = unat nb * unat bs"
    using no_wrap
    by (simp add: unat_mult_lem [THEN iffD1] nb_def bs_def mult.commute)
  note resize = rbuf_resize_required [of ctx sz, folded bs_def, folded nb_def]
  from ok have le: "\<not> sz > size_max (conf ctx)"
    by (auto simp: rbuf_resize_def)
  consider (grow) "nb > block_num (cache ctx)" | (shrink) "nb < block_num (cache ctx)"
    | (same) "nb = block_num (cache ctx)"
    by (metis linorder_neqE_linordered_idom not_less_iff_gr_or_eq word_less_def word_uint_eq_iff)
  then show ?thesis
  proof cases
    case grow
    with ok le bs obtain q where
      run: "resize_enqueue 0 (nb - block_num (cache ctx)) bs (bque ctx) = (BQUE_OK, q)"
      and ctx': "ctx' = resize_sizes sz (sz div bs) (sz mod bs)
        (ctx\<lparr>bque := q, cache := (cache ctx)\<lparr>block_num := nb, buff_cap := bs * nb\<rparr>\<rparr>)"
      by (auto simp: resize split: prod.splits bque_res.splits)
    have "unat (nb - block_num (cache ctx)) = unat nb - unat (block_num (cache ctx))"
      using grow by (simp add: unat_sub)
    with resize_enqueue_blocks [OF run] have
      "blocks q = blocks (bque ctx)
         @ replicate (unat nb - unat (block_num (cache ctx))) (replicate (unat bs) 0)"
      by simp
    moreover have "unat (block_num (cache ctx)) \<le> unat nb"
      using grow by (simp add: word_less_nat_alt)
    ultimately show ?thesis
      using lens held covers new_cap bs
      by (auto simp: ctx' coherent_def blocks_sized_def resize_sizes_def bs_def [symmetric]
          list_all_iff)
  next
    case shrink
    then have not_grow: "\<not> block_num (cache ctx) < nb"
      by (rule less_not_sym)
    with shrink ok le bs obtain q where
      run: "resize_forfeit 0 (block_num (cache ctx) - nb) (bque ctx) = (BQUE_OK, q)"
      and ctx': "ctx' = resize_sizes sz (sz div bs) (sz mod bs)
        (ctx\<lparr>bque := q, cache := (cache ctx)\<lparr>block_num := nb, buff_cap := bs * nb\<rparr>\<rparr>)"
      by (auto simp: resize split: prod.splits bque_res.splits)
    have "unat (block_num (cache ctx) - nb) = unat (block_num (cache ctx)) - unat nb"
      using shrink by (simp add: unat_sub)
    with resize_forfeit_blocks [OF run] have
      "blocks q = take (length (blocks (bque ctx)) - (unat (block_num (cache ctx)) - unat nb))
         (blocks (bque ctx))"
      by simp
    moreover have "unat nb \<le> unat (block_num (cache ctx))"
      using shrink by (simp add: word_less_nat_alt)
    moreover have "list_all (\<lambda>b. length b = unat bs) (take k (blocks (bque ctx)))" for k
      using lens by (auto simp: list_all_iff dest: in_set_takeD)
    ultimately show ?thesis
      using held covers new_cap bs
      by (simp add: ctx' coherent_def blocks_sized_def resize_sizes_def bs_def [symmetric])
  next
    case same
    with ok le bs have ctx': "ctx' = resize_sizes sz (sz div bs) (sz mod bs) ctx"
      by (simp add: resize)
    from covers same cap have "unat sz \<le> unat (buff_cap (cache ctx))"
      by simp
    with coh show ?thesis
      by (simp add: ctx' coherent_def blocks_sized_def resize_sizes_def)
  qed
qed

lemma coherent_covers:
  assumes "coherent ctx"
  shows "blocks_sized ctx"
    and "unat (buff_size (cache ctx))
      \<le> length (blocks (bque ctx)) * unat (block_size (conf ctx))"
    and "unat (buff_size (cache ctx)) \<le> unat (buff_cap (cache ctx))"
  using assms by (simp_all add: coherent_def)

text \<open>A range inside \<open>N\<close> ends in a block below the \<open>ceil (N / b)\<close>-th unless it ends at
  \<open>N\<close> and \<open>N\<close> is a multiple of \<open>b\<close>.\<close>

lemma end_block_held:
  fixes E N b :: nat
  assumes "0 < b" and "E \<le> N"
  shows "E div b < (N + b - 1) div b \<longleftrightarrow> \<not> (E = N \<and> N mod b = 0)"
proof (cases "N mod b = 0")
  case True
  then have ceil: "(N + b - 1) div b = N div b"
    using nat_ceil_div [OF assms(1), of N] by simp
  have "N = (N div b) * b + N mod b"
    by simp
  with True have N: "N = (N div b) * b"
    by simp
  show ?thesis
  proof (cases "E = N")
    case True
    with ceil \<open>N mod b = 0\<close> show ?thesis
      by simp
  next
    case False
    with assms(2) have "E < (N div b) * b"
      using N by linarith
    then have "E div b < N div b"
      using assms(1) by (simp add: div_less_iff_less_mult)
    with False ceil show ?thesis
      by simp
  qed
next
  case False
  then have "(N + b - 1) div b = N div b + 1"
    using nat_ceil_div [OF assms(1), of N] by simp
  moreover have "E div b \<le> N div b"
    using assms(2) by (rule div_le_mono)
  ultimately show ?thesis
    using False by simp
qed

text \<open>
  The round trip on a buffer grown to the logical size \<open>N\<close>: a buffer whose bookkeeping
  agrees with its store (a new buffer, or one resized before), resized to \<open>N\<close> with
  success, the block count times the block size staying below \<open>2 ^ 32\<close>. For every range
  \<open>offs\<close>, \<open>sz\<close> with \<open>offs + sz \<le> N\<close> the copy-in followed by the copy-out moves the
  bytes: the first \<open>sz\<close> bytes of the destination are the first \<open>sz\<close> bytes of the
  source. Both calls return the same code, and it is \<^verbatim>\<open>RBUF_ERR\<close>, not \<^verbatim>\<open>RBUF_OK\<close>, exactly
  when the range ends at \<open>N\<close> and \<open>N\<close> is a multiple of the block size (zero included).
\<close>

theorem round_trip_resized:
  assumes before: "coherent ctx0"
    and resized: "rbuf_resize ctx0 N = Some (RBUF_OK, ctx)"
    and no_wrap: "unat (required_blocks N (block_size (conf ctx0)))
      * unat (block_size (conf ctx0)) < 2 ^ 32"
    and range: "unat offs + unat sz \<le> unat N"
    and top: "unat offs + unat sz < 2 ^ 32 - 1"
    and src: "unat sz \<le> length buff"
    and dst: "unat sz \<le> length dest"
  shows "\<exists>res ctx' calls dest' calls'.
    rbuf_copy_from ctx buff offs sz = Some (res, ctx', calls) \<and>
    rbuf_copy_to ctx' dest offs sz = Some (res, ctx', dest', calls') \<and>
    take (unat sz) dest' = take (unat sz) buff \<and>
    drop (unat sz) dest' = drop (unat sz) dest \<and>
    res = (if unat offs + unat sz = unat N \<and> unat N mod unat (block_size (conf ctx0)) = 0
           then RBUF_ERR else RBUF_OK)"
proof -
  from resize_coherent [OF before resized no_wrap] have coh: "coherent ctx"
    and size: "buff_size (cache ctx) = N" and conf: "conf ctx = conf ctx0"
    by simp_all
  note hyps = coherent_covers [OF coh]
  from coh have held: "length (blocks (bque ctx)) = unat (block_num (cache ctx))"
    by (simp add: coherent_def)
  from resized have bs: "block_size (conf ctx0) \<noteq> 0"
    using resize_ok_cases by blast
  then have pos: "0 < unat (block_size (conf ctx0))"
    by (simp add: unat_gt_0)
  have "block_num (cache ctx) = required_blocks N (block_size (conf ctx0))"
    using resized bs
    by (auto simp: rbuf_resize_required resize_sizes_def
        split: if_splits prod.splits bque_res.splits)
  with held have blocks: "length (blocks (bque ctx))
      = (unat N + unat (block_size (conf ctx0)) - 1) div unat (block_size (conf ctx0))"
    by (simp add: required_blocks_ceiling [OF bs])
  have range': "unat offs + unat sz \<le> unat (buff_size (cache ctx))"
    using range size by simp
  from round_trip_bytes [OF hyps(1) range' hyps(2) hyps(3) top src dst]
  obtain res ctx' calls dest' calls' where
    "rbuf_copy_from ctx buff offs sz = Some (res, ctx', calls)"
    "rbuf_copy_to ctx' dest offs sz = Some (res, ctx', dest', calls')"
    "take (unat sz) dest' = take (unat sz) buff"
    "drop (unat sz) dest' = drop (unat sz) dest"
    "res = (if (unat offs + unat sz) div unat (block_size (conf ctx))
                 < length (blocks (bque ctx))
            then RBUF_OK else RBUF_ERR)"
    by blast
  moreover from this(5) have
    "res = (if unat offs + unat sz = unat N \<and> unat N mod unat (block_size (conf ctx0)) = 0
           then RBUF_ERR else RBUF_OK)"
    using end_block_held [OF pos range] by (simp add: conf blocks)
  ultimately show ?thesis
    by blast
qed

text \<open>
  An instance: a new buffer with blocks of 4 bytes resized to 6, the bytes 1, 2, 3, 4
  written at offset 1 across the block boundary and read back.
\<close>

theorem round_trip_resized_witness:
  "coherent (fresh 4 16 []) \<and>
   rbuf_resize (fresh 4 16 []) 6 = Some (RBUF_OK, small [[0, 0, 0, 0], [0, 0, 0, 0]] 6 2) \<and>
   unat (required_blocks 6 (block_size (conf (fresh 4 16 []))))
     * unat (block_size (conf (fresh 4 16 []))) < 2 ^ 32 \<and>
   unat (1 :: rbuf_u32) + unat (4 :: rbuf_u32) \<le> unat (6 :: rbuf_u32) \<and>
   unat (1 :: rbuf_u32) + unat (4 :: rbuf_u32) < 2 ^ 32 - 1 \<and>
   unat (4 :: rbuf_u32) \<le> length [1, 2, 3, 4 :: rbuf_u8] \<and>
   unat (4 :: rbuf_u32) \<le> length [0, 0, 0, 0 :: rbuf_u8] \<and>
   rbuf_copy_from (small [[0, 0, 0, 0], [0, 0, 0, 0]] 6 2) [1, 2, 3, 4] 1 4 =
     Some (RBUF_OK, small [[0, 1, 2, 3], [4, 0, 0, 0]] 6 2,
       [\<lparr>sc_block_idx = 0, sc_block_offs = 1, sc_buff_offs = 0, sc_size = 3\<rparr>,
        \<lparr>sc_block_idx = 1, sc_block_offs = 0, sc_buff_offs = 3, sc_size = 1\<rparr>]) \<and>
   rbuf_copy_to (small [[0, 1, 2, 3], [4, 0, 0, 0]] 6 2) [0, 0, 0, 0] 1 4 =
     Some (RBUF_OK, small [[0, 1, 2, 3], [4, 0, 0, 0]] 6 2, [1, 2, 3, 4],
       [\<lparr>sc_block_idx = 0, sc_block_offs = 1, sc_buff_offs = 0, sc_size = 3\<rparr>,
        \<lparr>sc_block_idx = 1, sc_block_offs = 0, sc_buff_offs = 3, sc_size = 1\<rparr>])"
proof -
  let ?ctx = "small [[0, 0, 0, 0], [0, 0, 0, 0]] 6 2"
  let ?ctx' = "small [[0, 1, 2, 3], [4, 0, 0, 0]] 6 2"
  have before: "coherent (fresh 4 16 [])"
    by (rule coherent_fresh) simp
  note resized = resize_small(2)
  have no_wrap: "unat (required_blocks 6 (block_size (conf (fresh 4 16 []))))
     * unat (block_size (conf (fresh 4 16 []))) < 2 ^ 32"
    by (simp add: required_blocks_def fresh_def)
  have range: "unat (1 :: rbuf_u32) + unat (4 :: rbuf_u32) \<le> unat (6 :: rbuf_u32)"
    and top: "unat (1 :: rbuf_u32) + unat (4 :: rbuf_u32) < 2 ^ 32 - 1"
    and src: "unat (4 :: rbuf_u32) \<le> length [1, 2, 3, 4 :: rbuf_u8]"
    and dst: "unat (4 :: rbuf_u32) \<le> length [0, 0, 0, 0 :: rbuf_u8]"
    by simp_all
  from round_trip_resized [OF before resized no_wrap range top src dst]
  obtain res ctx' calls dest' calls' where
    wrote: "rbuf_copy_from ?ctx [1, 2, 3, 4] 1 4 = Some (res, ctx', calls)"
    and read: "rbuf_copy_to ctx' [0, 0, 0, 0] 1 4 = Some (res, ctx', dest', calls')"
    and moved: "take (unat (4 :: rbuf_u32)) dest' = take (unat (4 :: rbuf_u32)) [1, 2, 3, 4]"
    and rest: "drop (unat (4 :: rbuf_u32)) dest' = drop (unat (4 :: rbuf_u32)) [0, 0, 0, 0]"
    and code: "res =
      (if unat (1 :: rbuf_u32) + unat (4 :: rbuf_u32) = unat (6 :: rbuf_u32) \<and>
          unat (6 :: rbuf_u32) mod unat (block_size (conf (fresh 4 16 []))) = 0
       then RBUF_ERR else RBUF_OK)"
    by blast
  from code have res: "res = RBUF_OK"
    by simp
  have run: "rbuf_copy_from ?ctx [1, 2, 3, 4] 1 4 =
     Some (RBUF_OK, ?ctx',
       [\<lparr>sc_block_idx = 0, sc_block_offs = 1, sc_buff_offs = 0, sc_size = 3\<rparr>,
        \<lparr>sc_block_idx = 1, sc_block_offs = 0, sc_buff_offs = 3, sc_size = 1\<rparr>])"
    by (simp add: rbuf_copy_from_def copy_from_blocks_def copy_from_loop.simps small_def
        bque_item_def block_write_def memcpy_def)
  with wrote have ctx': "ctx' = ?ctx'"
    by simp
  have "dest' = take 4 dest' @ drop 4 dest'"
    by simp
  also have "\<dots> = [1, 2, 3, 4]"
    using moved rest by simp
  finally have "dest' = [1, 2, 3, 4]" .
  moreover have "calls' =
       [\<lparr>sc_block_idx = 0, sc_block_offs = 1, sc_buff_offs = 0, sc_size = 3\<rparr>,
        \<lparr>sc_block_idx = 1, sc_block_offs = 0, sc_buff_offs = 3, sc_size = 1\<rparr>]"
    using read
    by (simp add: ctx' rbuf_copy_to_def copy_to_loop.simps small_def bque_item_def
        block_read_def memcpy_def)
  ultimately show ?thesis
    using before resized no_wrap range top src dst run read res ctx' by simp
qed

end
